theory Spec2Isabelle
  imports Main "HOL-Library.Word"
begin

unbundle bit_operations_syntax

section \<open>clightning-dumpkeys: data model\<close>

text \<open>
  The program of \<^verbatim>\<open>clightning-dumpkeys.c\<close> reads a 32-byte secret from a file, whitens
  it into a BIP32 seed, derives the key m/0/0 and prints it as a Base58Check line.
  The embedding follows the C file function by function. The end of the process
  (\<^verbatim>\<open>exit\<close>, a failed \<^verbatim>\<open>assert\<close>) is a value of type \<open>halt\<close>; every function that can
  end the process returns a sum whose left side is the halt and the final state.
\<close>

type_synonym u8 = "8 word"
type_synonym u32 = "32 word"

text \<open>
  A C array \<^verbatim>\<open>unsigned char a[n]\<close> inside \<^verbatim>\<open>struct ext_key\<close> is the word of \<open>8 * n\<close>
  bits whose big-endian bytes are \<^verbatim>\<open>a[0]\<close>, ..., \<^verbatim>\<open>a[n-1]\<close>: the type fixes the
  array's size, as the C type does. \<open>be_bytes n w\<close> lists the \<open>n\<close> low bytes of \<open>w\<close>, most
  significant first; \<open>le_bytes\<close> lists them least significant first (the object
  representation of an integer on a little-endian machine).
\<close>

definition be_bytes :: "nat \<Rightarrow> 'a::len word \<Rightarrow> u8 list" where
  "be_bytes n w = map (\<lambda>i. ucast (drop_bit (8 * (n - 1 - i)) w)) [0..<n]"

definition le_bytes :: "nat \<Rightarrow> 'a::len word \<Rightarrow> u8 list" where
  "le_bytes n w = map (\<lambda>i. ucast (drop_bit (8 * i) w)) [0..<n]"

text \<open>
  Modelled from the spec: \<^verbatim>\<open>struct ext_key\<close> is declared in \<^verbatim>\<open>bip32.h\<close>, which is not
  among the sources. The fields the program names (\<^verbatim>\<open>version\<close>, \<^verbatim>\<open>depth\<close>, \<^verbatim>\<open>parent160\<close>)
  keep their names; the others are the attributes of the spec's ExtendedKey: a child
  index, a 32-byte chain code, a 32-byte private key and a 33-byte compressed public key.
  \<^verbatim>\<open>parent160\<close> is the 20-byte HASH160 of the parent's public key, whose first 4 bytes
  are the parent fingerprint.
\<close>

record ext_key =
  version :: u32
  depth :: u8
  parent160 :: "160 word"
  child_num :: u32
  chain_code :: "256 word"
  priv_key :: "256 word"
  pub_key :: "264 word"

text \<open>\<^verbatim>\<open>struct bip32_key_version\<close>.\<close>

record bip32_key_version =
  bip32_pubkey_version :: u32
  bip32_privkey_version :: u32

text \<open>
  The return codes of the wally functions (\<^verbatim>\<open>wally_core.h\<close>); the program only compares
  them with \<^verbatim>\<open>WALLY_OK\<close>.
\<close>

datatype wally_ret = WALLY_OK | WALLY_ERROR | WALLY_EINVAL | WALLY_ENOMEM

text \<open>
  Modelled from the spec: the version tags of \<^verbatim>\<open>bip32.h\<close>. The spec gives the mainnet
  pair; the testnet pair, which only the two assertions of \<^verbatim>\<open>populate_secretstuff\<close>
  mention, has the values of BIP32.
\<close>

definition BIP32_VER_MAIN_PUBLIC :: u32 where
  "BIP32_VER_MAIN_PUBLIC = 0x0488B21E"

definition BIP32_VER_MAIN_PRIVATE :: u32 where
  "BIP32_VER_MAIN_PRIVATE = 0x0488ADE4"

definition BIP32_VER_TEST_PUBLIC :: u32 where
  "BIP32_VER_TEST_PUBLIC = 0x043587CF"

definition BIP32_VER_TEST_PRIVATE :: u32 where
  "BIP32_VER_TEST_PRIVATE = 0x04358394"

text \<open>
  Modelled from the spec: the serialized length (78 bytes) of \<^verbatim>\<open>bip32.h\<close>.
\<close>

definition BIP32_SERIALIZED_LEN :: nat where
  "BIP32_SERIALIZED_LEN = 78"

text \<open>
  The two flags the program passes, with their values in the wally headers. The model
  compares the serializer's flag with \<^verbatim>\<open>BIP32_FLAG_KEY_PRIVATE\<close> itself, and of
  \<^verbatim>\<open>BASE58_FLAG_CHECKSUM\<close> it only uses that the bit is set.
\<close>

definition BIP32_FLAG_KEY_PRIVATE :: u32 where
  "BIP32_FLAG_KEY_PRIVATE = 0"

definition BASE58_FLAG_CHECKSUM :: u32 where
  "BASE58_FLAG_CHECKSUM = 1"

text \<open>The macro of the source file.\<close>

definition BIP32_ENTROPY_LEN_256 :: nat where
  "BIP32_ENTROPY_LEN_256 = 32"

section \<open>The operating system: open, read, errno\<close>

text \<open>
  What the kernel does at one call of \<^verbatim>\<open>read(2)\<close>: it fails with an errno, or it
  delivers at most the given number of bytes (a short read). A read of a regular file
  returns 0 only at end of file, so a delivery hands over at least one byte while the
  file has bytes left. When the script is used up, every further read is complete.
\<close>

datatype read_event = Fails int | Delivers nat

record fd_state =
  pending :: "u8 list"
  script :: "read_event list"

text \<open>The value of \<^verbatim>\<open>EINTR\<close> in \<^verbatim>\<open>errno.h\<close> (Linux).\<close>

definition EINTR :: int where
  "EINTR = 4"

text \<open>
  \<open>sys_read fd sz err\<close> is one call \<^verbatim>\<open>read(fd, data, sz)\<close>: the returned count, the
  new errno, the bytes stored at \<^verbatim>\<open>data\<close>, and the descriptor afterwards.
\<close>

definition sys_read :: "fd_state \<Rightarrow> nat \<Rightarrow> int \<Rightarrow> int \<times> int \<times> u8 list \<times> fd_state" where
  "sys_read fd sz err =
     (case script fd of
        [] \<Rightarrow>
          (let bs = take sz (pending fd)
           in (int (length bs), err, bs,
               fd\<lparr>pending := drop (length bs) (pending fd)\<rparr>))
      | Fails e # rest \<Rightarrow> (- 1, e, [], fd\<lparr>script := rest\<rparr>)
      | Delivers n # rest \<Rightarrow>
          (let bs = take (min (max n 1) sz) (pending fd)
           in (int (length bs), err, bs,
               \<lparr>pending = drop (length bs) (pending fd), script = rest\<rparr>)))"

lemma sys_read_negative:
  assumes "sys_read fd sz err = (dn, e, bs, fd')" and "dn < 0"
  shows "length (script fd') < length (script fd)"
  using assms
  by (auto simp: sys_read_def Let_def split: list.splits read_event.splits)

lemma sys_read_script:
  assumes "sys_read fd sz err = (dn, e, bs, fd')"
  shows "length (script fd') \<le> length (script fd)"
  using assms
  by (auto simp: sys_read_def Let_def split: list.splits read_event.splits)

lemma take_min_length: "take (min (length xs) n) xs = take n xs"
  by (simp add: min_def)

lemma sys_read_count:
  assumes "sys_read fd sz err = (dn, e, bs, fd')" and "0 \<le> dn"
  shows "dn = int (length bs) \<and> length bs \<le> sz \<and>
         bs = take (length bs) (pending fd) \<and> pending fd' = drop (length bs) (pending fd)"
  using assms
  by (auto simp: sys_read_def Let_def take_min_length split: list.splits read_event.splits)

lemma sys_read_error:
  assumes "sys_read fd sz err = (dn, e, bs, fd')" and "dn < 0"
  shows "bs = [] \<and> pending fd' = pending fd"
  using assms
  by (auto simp: sys_read_def Let_def split: list.splits read_event.splits)

section \<open>read_all\<close>

text \<open>
  \<^verbatim>\<open>bool read_all(int fd, void *data, size_t size)\<close>. The pointer \<^verbatim>\<open>data\<close> walks through
  the caller's buffer; the model carries the bytes stored so far (\<open>stored\<close>), to which
  each read appends, so the result's second component is the overwritten prefix of the
  buffer. The result also holds errno and the descriptor after the last read.
\<close>

function read_all :: "fd_state \<Rightarrow> int \<Rightarrow> u8 list \<Rightarrow> nat \<Rightarrow> bool \<times> u8 list \<times> int \<times> fd_state" where
  "read_all fd err stored sz =
     (if sz = 0 then (True, stored, err, fd)
      else
        (case sys_read fd sz err of
           (dn, err', bs, fd') \<Rightarrow>
             if dn < 0 \<and> err' = EINTR then read_all fd' err' stored sz
             else if dn \<le> 0 then (False, stored, err', fd')
             else read_all fd' err' (stored @ bs) (sz - nat dn)))"
  by pat_completeness auto
termination
proof (relation "measure (\<lambda>(fd, err, stored, sz). length (script fd) + sz)", goal_cases)
  case 1
  show ?case by simp
next
  case (2 fd err stored sz dn y err' z bs fd')
  then have "sys_read fd sz err = (dn, err', bs, fd')" and "dn < 0"
    by auto
  then have "length (script fd') < length (script fd)"
    by (rule sys_read_negative)
  then show ?case by simp
next
  case (3 fd err stored sz dn y err' z bs fd')
  then have "sys_read fd sz err = (dn, err', bs, fd')" and "0 < dn" and "sz \<noteq> 0"
    by auto
  then have "length (script fd') \<le> length (script fd)" and "sz - nat dn < sz"
    by (auto dest: sys_read_script)
  then show ?case by simp
qed

declare read_all.simps [simp del]

text \<open>
  A read event that does not make \<^verbatim>\<open>read_all\<close> give up: a short read, or a failure
  with \<^verbatim>\<open>EINTR\<close>.
\<close>

fun benign :: "read_event \<Rightarrow> bool" where
  "benign (Fails e) = (e = EINTR)"
| "benign (Delivers n) = True"

section \<open>Base58Check\<close>

text \<open>
  Modelled from the spec: \<^verbatim>\<open>wally_base58_from_bytes\<close> is declared in \<^verbatim>\<open>base58.h\<close> and its
  code is not among the sources. The spec's Key Encoder appends the first 4 bytes of the
  double SHA-256 of the payload and Base58-encodes the result. Base58 is the encoding of
  Bitcoin: every leading zero byte becomes the character 1, and the remaining bytes, read
  as a big-endian number, are written in base 58 over the alphabet below.
\<close>

definition b58_alphabet :: string where
  "b58_alphabet = ''123456789ABCDEFGHJKLMNPQRSTUVWXYZabcdefghijkmnopqrstuvwxyz''"

definition nat_of_bytes :: "u8 list \<Rightarrow> nat" where
  "nat_of_bytes bs = foldl (\<lambda>n b. 256 * n + unat b) 0 bs"

function to_base :: "nat \<Rightarrow> nat \<Rightarrow> nat list" where
  "to_base b n = (if b < 2 \<or> n = 0 then [] else to_base b (n div b) @ [n mod b])"
  by pat_completeness auto
termination
  by (relation "measure snd") auto

declare to_base.simps [simp del]

definition of_base :: "nat \<Rightarrow> nat list \<Rightarrow> nat" where
  "of_base b ds = foldl (\<lambda>n d. b * n + d) 0 ds"

definition base58_encode :: "u8 list \<Rightarrow> string" where
  "base58_encode bs =
     replicate (length (takeWhile (\<lambda>b. b = 0) bs)) (CHR ''1'') @
     map (\<lambda>d. b58_alphabet ! d) (to_base 58 (nat_of_bytes bs))"

text \<open>
  Modelled from the spec: the decoder of the spec's round-trip property, the inverse of
  \<open>base58_encode\<close>. It fails on a character outside the alphabet.
\<close>

fun position :: "'a \<Rightarrow> 'a list \<Rightarrow> nat option" where
  "position c [] = None"
| "position c (x # xs) = (if c = x then Some 0 else map_option Suc (position c xs))"

definition base58_decode :: "string \<Rightarrow> u8 list option" where
  "base58_decode str =
     (if list_all (\<lambda>c. position c b58_alphabet \<noteq> None) str
      then Some (replicate (length (takeWhile (\<lambda>c. c = CHR ''1'') str)) 0 @
                 map of_nat (to_base 256 (of_base 58 (map (\<lambda>c. the (position c b58_alphabet)) str))))
      else None)"

section \<open>The library the program calls\<close>

text \<open>
  The code of \<^verbatim>\<open>hkdf_sha256\<close>, \<^verbatim>\<open>bip32_key_from_seed\<close>, \<^verbatim>\<open>bip32_key_from_parent\<close> and of
  SHA-256 is not among the sources, and the spec treats them as a trusted library: they
  are parameters of the model, pure functions of their inputs. The secp256k1 context,
  created once and passed to every call, is part of these functions.
  \<^item> \<open>hkdf_sha256 L okm_size salt ikm info\<close> is the output key material;
  \<^item> \<open>bip32_key_from_seed L seed version flags\<close> and
    \<open>bip32_key_from_parent L parent child_num flags\<close> give the return code and the key
    written to the output argument;
  \<^item> \<open>key_is_valid L key\<close> is the validation of the serializer, which the spec leaves
    open ("infallible given well-formed ExtendedKey input");
  \<^item> \<open>sha256 L bytes\<close> is the 32-byte digest.
\<close>

record lib =
  hkdf_sha256 :: "nat \<Rightarrow> u8 list \<Rightarrow> u8 list \<Rightarrow> string \<Rightarrow> u8 list"
  bip32_key_from_seed :: "u8 list \<Rightarrow> u32 \<Rightarrow> u32 \<Rightarrow> wally_ret \<times> ext_key"
  bip32_key_from_parent :: "ext_key \<Rightarrow> u32 \<Rightarrow> u32 \<Rightarrow> wally_ret \<times> ext_key"
  key_is_valid :: "ext_key \<Rightarrow> bool"
  sha256 :: "u8 list \<Rightarrow> 256 word"

text \<open>
  Modelled from the spec: \<^verbatim>\<open>bip32_key_serialize\<close> is declared in \<^verbatim>\<open>bip32.h\<close> and its code
  is not among the sources. The layout is the spec's: big-endian, 78 bytes: 4 bytes
  version tag, 1 byte depth, 4 bytes parent fingerprint, 4 bytes child index, 32 bytes
  chain code, 33 bytes key material (for a private key a leading zero byte and the
  32-byte scalar, for a public key the 33-byte compressed point). The result is the
  return code and the bytes written to the output buffer.
\<close>

definition bip32_key_serialize :: "lib \<Rightarrow> ext_key \<Rightarrow> u32 \<Rightarrow> nat \<Rightarrow> wally_ret \<times> u8 list" where
  "bip32_key_serialize L hdkey flags len =
     (if len \<noteq> BIP32_SERIALIZED_LEN \<or> \<not> key_is_valid L hdkey then (WALLY_EINVAL, [])
      else (WALLY_OK,
            be_bytes 4 (version hdkey) @ [depth hdkey] @
            take 4 (be_bytes 20 (parent160 hdkey)) @
            be_bytes 4 (child_num hdkey) @
            be_bytes 32 (chain_code hdkey) @
            (if flags = BIP32_FLAG_KEY_PRIVATE then 0 # be_bytes 32 (priv_key hdkey)
             else be_bytes 33 (pub_key hdkey))))"

text \<open>
  Modelled from the spec: the checksum of Base58Check, the first 4 bytes of the double
  SHA-256 of the bytes, and \<^verbatim>\<open>wally_base58_from_bytes\<close> of \<^verbatim>\<open>base58.h\<close>, which appends it
  when \<^verbatim>\<open>BASE58_FLAG_CHECKSUM\<close> is set and Base58-encodes the result.
\<close>

definition base58_checksum :: "lib \<Rightarrow> u8 list \<Rightarrow> u8 list" where
  "base58_checksum L bytes = take 4 (be_bytes 32 (sha256 L (be_bytes 32 (sha256 L bytes))))"

definition wally_base58_from_bytes :: "lib \<Rightarrow> u8 list \<Rightarrow> u32 \<Rightarrow> string" where
  "wally_base58_from_bytes L bytes flags =
     base58_encode
       (if flags AND BASE58_FLAG_CHECKSUM \<noteq> 0 then bytes @ base58_checksum L bytes else bytes)"

section \<open>The process\<close>

text \<open>
  The environment of a run: \<open>fs\<close> answers \<^verbatim>\<open>open(path, O_RDONLY)\<close> with an errno or with
  the contents of the file, \<open>reads\<close> is what the kernel does at the successive calls of
  \<^verbatim>\<open>read\<close>, \<open>strerror\<close> is the C library's.
\<close>

record env =
  fs :: "string \<Rightarrow> int + u8 list"
  reads :: "read_event list"
  strerror :: "int \<Rightarrow> string"

text \<open>The calls into the file system and the library, in the order the process makes them.\<close>

datatype call =
    Call_open string
  | Call_hkdf_sha256 nat "u8 list" "u8 list" string
  | Call_bip32_key_from_seed "u8 list" u32 u32
  | Call_bip32_key_from_parent ext_key u32 u32
  | Call_bip32_key_serialize ext_key u32 nat

text \<open>
  The state of the process: errno, the statics \<^verbatim>\<open>secretstuff\<close> and \<^verbatim>\<open>bip32_key_version\<close>,
  what has been written to the two streams, and the calls made so far.
\<close>

record sys =
  errno :: int
  hsm_secret :: "u8 list"
  bip32 :: ext_key
  key_version :: bip32_key_version
  stdout :: string
  stderr :: string
  calls :: "call list"

text \<open>How the process ends: \<^verbatim>\<open>exit\<close> with a code, or the abort of a failed \<^verbatim>\<open>assert\<close>.\<close>

datatype halt = Exited int | Aborted

text \<open>Statics are zero-initialised; nothing has been written or called.\<close>

definition init_sys :: sys where
  "init_sys =
     \<lparr>errno = 0, hsm_secret = replicate 32 0,
      bip32 = \<lparr>version = 0, depth = 0, parent160 = 0, child_num = 0, chain_code = 0,
               priv_key = 0, pub_key = 0\<rparr>,
      key_version = \<lparr>bip32_pubkey_version = 0, bip32_privkey_version = 0\<rparr>,
      stdout = [], stderr = [], calls = []\<rparr>"

definition called :: "call \<Rightarrow> sys \<Rightarrow> sys" where
  "called c s = s\<lparr>calls := calls s @ [c]\<rparr>"

definition newline :: string where
  "newline = [CHR 0x0A]"

text \<open>The macros \<^verbatim>\<open>fatal\<close> (with the formatted message as argument) and \<^verbatim>\<open>fatal1\<close>.\<close>

definition fatal :: "string \<Rightarrow> sys \<Rightarrow> halt \<times> sys" where
  "fatal msg s = (Exited 1, s\<lparr>stderr := stderr s @ msg @ newline\<rparr>)"

definition fatal1 :: "string \<Rightarrow> sys \<Rightarrow> halt \<times> sys" where
  "fatal1 msg s = (Exited 1, s\<lparr>stderr := stderr s @ msg\<rparr>)"

subsection \<open>populate_secretstuff\<close>

text \<open>
  The \<^verbatim>\<open>do ... while\<close> loop of \<^verbatim>\<open>populate_secretstuff\<close>, which has no bound: a run in
  which no candidate is ever accepted does not return (\<open>None\<close>). The salt is passed to
  \<^verbatim>\<open>hkdf_sha256\<close> by address, as its 4 bytes in memory (little-endian, as the spec has
  it). The result is the master key, the salt after the loop and the state.
\<close>

partial_function (option) seed_loop :: "lib \<Rightarrow> u32 \<Rightarrow> sys \<Rightarrow> (ext_key \<times> u32 \<times> sys) option" where
  "seed_loop L salt s =
     (let bip32_seed =
            hkdf_sha256 L BIP32_ENTROPY_LEN_256 (le_bytes 4 salt) (hsm_secret s) ''bip32 seed'';
          s1 = called (Call_hkdf_sha256 BIP32_ENTROPY_LEN_256 (le_bytes 4 salt) (hsm_secret s)
                 ''bip32 seed'') s;
          salt' = salt + 1;
          r = bip32_key_from_seed L bip32_seed (bip32_privkey_version (key_version s1)) 0;
          s2 = called (Call_bip32_key_from_seed bip32_seed
                 (bip32_privkey_version (key_version s1)) 0) s1
      in if fst r \<noteq> WALLY_OK then seed_loop L salt' s2 else Some (snd r, salt', s2))"

definition populate_secretstuff :: "lib \<Rightarrow> sys \<Rightarrow> (halt \<times> sys + sys) option" where
  "populate_secretstuff L s0 =
     (let s = s0\<lparr>key_version :=
                  \<lparr>bip32_pubkey_version = BIP32_VER_MAIN_PUBLIC,
                   bip32_privkey_version = BIP32_VER_MAIN_PRIVATE\<rparr>\<rparr>
      in if \<not> (bip32_pubkey_version (key_version s) = BIP32_VER_MAIN_PUBLIC
               \<or> bip32_pubkey_version (key_version s) = BIP32_VER_TEST_PUBLIC)
         then Some (Inl (Aborted, s))
         else if \<not> (bip32_privkey_version (key_version s) = BIP32_VER_MAIN_PRIVATE
                     \<or> bip32_privkey_version (key_version s) = BIP32_VER_TEST_PRIVATE)
         then Some (Inl (Aborted, s))
         else
           (case seed_loop L 0 s of
              None \<Rightarrow> None
            | Some (master_extkey, salt, s1) \<Rightarrow>
                (let r1 = bip32_key_from_parent L master_extkey 0 BIP32_FLAG_KEY_PRIVATE;
                     s2 = called (Call_bip32_key_from_parent master_extkey 0
                            BIP32_FLAG_KEY_PRIVATE) s1
                 in if fst r1 \<noteq> WALLY_OK
                    then Some (Inl (fatal1 ''Can't derive child bip32 key'' s2))
                    else
                      (let child_extkey = snd r1;
                           r2 = bip32_key_from_parent L child_extkey 0 BIP32_FLAG_KEY_PRIVATE;
                           s3 = (called (Call_bip32_key_from_parent child_extkey 0
                                   BIP32_FLAG_KEY_PRIVATE) s2)\<lparr>bip32 := snd r2\<rparr>
                       in if fst r2 \<noteq> WALLY_OK
                          then Some (Inl (fatal1 ''Can't derive private bip32 key'' s3))
                          else Some (Inr s3)))))"

subsection \<open>load_hsm\<close>

text \<open>
  \<open>secretfile\<close> is a C string or the null pointer (\<open>None\<close>). \<^verbatim>\<open>read_all\<close> writes into
  \<^verbatim>\<open>secretstuff.hsm_secret\<close>, 32 bytes long: the bytes it stored replace a prefix of it.
\<close>

definition load_hsm :: "lib \<Rightarrow> env \<Rightarrow> string option \<Rightarrow> sys \<Rightarrow> (halt \<times> sys + sys) option" where
  "load_hsm L E secretfile s0 =
     (let path = (case secretfile of Some p \<Rightarrow> p | None \<Rightarrow> ''hsm_secret'');
          s = called (Call_open path) s0
      in case fs E path of
           Inl e \<Rightarrow> Some (Inl (fatal (''opening: '' @ strerror E e) (s\<lparr>errno := e\<rparr>)))
         | Inr contents \<Rightarrow>
             (case read_all \<lparr>pending = contents, script = reads E\<rparr> (errno s) [] 32 of
                (ok, stored, err, fd) \<Rightarrow>
                  (let s1 = s\<lparr>errno := err,
                              hsm_secret := stored @ drop (length stored) (hsm_secret s)\<rparr>
                   in if \<not> ok then Some (Inl (fatal (''reading: '' @ strerror E err) s1))
                      else populate_secretstuff L s1)))"

subsection \<open>dump_xpriv\<close>

text \<open>
  The \<^verbatim>\<open>for\<close> loop of \<^verbatim>\<open>dump_xpriv\<close> over the array \<^verbatim>\<open>versions\<close>. A failed assertion ends
  the process (\<open>Aborted\<close>); the diagnostic that \<^verbatim>\<open>assert\<close> prints is left out.
  \<^verbatim>\<open>wally_free_string\<close> clears and frees the string, which nothing observes.
\<close>

fun print_versions :: "lib \<Rightarrow> (string \<times> u32) list \<Rightarrow> sys \<Rightarrow> halt \<times> sys + sys" where
  "print_versions L [] s = Inr s"
| "print_versions L (ver # rest) s =
     (let s1 = s\<lparr>bip32 := (bip32 s)\<lparr>version := snd ver, depth := 0, parent160 := 0\<rparr>\<rparr>;
          r = bip32_key_serialize L (bip32 s1) BIP32_FLAG_KEY_PRIVATE BIP32_SERIALIZED_LEN;
          s2 = called (Call_bip32_key_serialize (bip32 s1) BIP32_FLAG_KEY_PRIVATE
                 BIP32_SERIALIZED_LEN) s1
      in if fst r \<noteq> WALLY_OK then Inl (Aborted, s2)
         else
           (let out = wally_base58_from_bytes L (take BIP32_SERIALIZED_LEN (snd r))
                        BASE58_FLAG_CHECKSUM
            in print_versions L rest (s2\<lparr>stdout := stdout s2 @ out @ newline\<rparr>)))"

definition versions :: "(string \<times> u32) list" where
  "versions = [(''standard'', BIP32_VER_MAIN_PRIVATE)]"

definition dump_xpriv :: "lib \<Rightarrow> env \<Rightarrow> string option \<Rightarrow> sys \<Rightarrow> (halt \<times> sys + int \<times> sys) option" where
  "dump_xpriv L E secretfile s0 =
     (let s = s0\<lparr>bip32 := (bip32 s0)\<lparr>version := BIP32_VER_MAIN_PRIVATE\<rparr>,
                 key_version :=
                   \<lparr>bip32_pubkey_version = BIP32_VER_MAIN_PUBLIC,
                    bip32_privkey_version = BIP32_VER_MAIN_PRIVATE\<rparr>\<rparr>
      in case load_hsm L E secretfile s of
           None \<Rightarrow> None
         | Some (Inl h) \<Rightarrow> Some (Inl h)
         | Some (Inr s1) \<Rightarrow>
             (case print_versions L versions s1 of
                Inl h \<Rightarrow> Some (Inl h)
              | Inr s2 \<Rightarrow> Some (Inr (0, s2))))"

subsection \<open>usage and main\<close>

definition usage :: "sys \<Rightarrow> halt \<times> sys" where
  "usage s =
     (Exited 42, s\<lparr>stderr := stderr s @ ''usage: clightning-dumpkeys <hsmd_secretfile>'' @ newline\<rparr>)"

text \<open>
  \<open>argv\<close> lists the arguments, the program's name first: \<^verbatim>\<open>argc\<close> is its length. The
  result is how the process ends and its final state, or \<open>None\<close> when it never ends.
\<close>

definition main :: "lib \<Rightarrow> env \<Rightarrow> string list \<Rightarrow> (halt \<times> sys) option" where
  "main L E argv =
     (if length argv \<noteq> 2 then Some (usage init_sys)
      else
        (case dump_xpriv L E (Some (argv ! 1)) init_sys of
           None \<Rightarrow> None
         | Some (Inl h) \<Rightarrow> Some h
         | Some (Inr (r, s)) \<Rightarrow> Some (Exited 0, s)))"

section \<open>Notions the properties are stated with\<close>

text \<open>
  The candidate seed that the loop of \<^verbatim>\<open>populate_secretstuff\<close> computes when the salt
  has the given value, whether \<^verbatim>\<open>bip32_key_from_seed\<close> accepts it, and the two calls of
  that iteration. \<open>privver\<close> reads \<^verbatim>\<open>bip32_key_version.bip32_privkey_version\<close>.
\<close>

definition candidate :: "lib \<Rightarrow> u8 list \<Rightarrow> u32 \<Rightarrow> u8 list" where
  "candidate L secret salt =
     hkdf_sha256 L BIP32_ENTROPY_LEN_256 (le_bytes 4 salt) secret ''bip32 seed''"

definition accepts :: "lib \<Rightarrow> u8 list \<Rightarrow> u32 \<Rightarrow> u32 \<Rightarrow> bool" where
  "accepts L secret v salt \<longleftrightarrow>
     fst (bip32_key_from_seed L (candidate L secret salt) v 0) = WALLY_OK"

definition attempt :: "lib \<Rightarrow> u8 list \<Rightarrow> u32 \<Rightarrow> u32 \<Rightarrow> call list" where
  "attempt L secret v salt =
     [Call_hkdf_sha256 BIP32_ENTROPY_LEN_256 (le_bytes 4 salt) secret ''bip32 seed'',
      Call_bip32_key_from_seed (candidate L secret salt) v 0]"

definition privver :: "sys \<Rightarrow> u32" where
  "privver s = bip32_privkey_version (key_version s)"

text \<open>The assignment of the mainnet pair to \<^verbatim>\<open>bip32_key_version\<close>.\<close>

definition mainnet :: "sys \<Rightarrow> sys" where
  "mainnet s =
     s\<lparr>key_version := \<lparr>bip32_pubkey_version = BIP32_VER_MAIN_PUBLIC,
                        bip32_privkey_version = BIP32_VER_MAIN_PRIVATE\<rparr>\<rparr>"

text \<open>The salt \<open>n\<close> is the first whose candidate \<^verbatim>\<open>bip32_key_from_seed\<close> accepts.\<close>

definition first_accepted :: "lib \<Rightarrow> u8 list \<Rightarrow> u32 \<Rightarrow> nat \<Rightarrow> bool" where
  "first_accepted L secret v n \<longleftrightarrow>
     accepts L secret v (of_nat n) \<and> (\<forall>j<n. \<not> accepts L secret v (of_nat j))"

text \<open>The calls of the loop up to and including the attempt with salt \<open>n\<close>.\<close>

definition whitening :: "lib \<Rightarrow> u8 list \<Rightarrow> u32 \<Rightarrow> nat \<Rightarrow> call list" where
  "whitening L secret v n = concat (map (\<lambda>k. attempt L secret v (of_nat k)) [0..<Suc n])"

text \<open>The key that \<^verbatim>\<open>bip32_key_from_seed\<close> writes for the candidate of salt \<open>n\<close>.\<close>

definition master_key :: "lib \<Rightarrow> u8 list \<Rightarrow> u32 \<Rightarrow> nat \<Rightarrow> ext_key" where
  "master_key L secret v n = snd (bip32_key_from_seed L (candidate L secret (of_nat n)) v 0)"

text \<open>The child derivation of \<^verbatim>\<open>populate_secretstuff\<close>: index 0, flag \<^verbatim>\<open>BIP32_FLAG_KEY_PRIVATE\<close>.\<close>

definition derive :: "lib \<Rightarrow> ext_key \<Rightarrow> wally_ret \<times> ext_key" where
  "derive L parent = bip32_key_from_parent L parent 0 BIP32_FLAG_KEY_PRIVATE"

definition derive_call :: "ext_key \<Rightarrow> call" where
  "derive_call parent = Call_bip32_key_from_parent parent 0 BIP32_FLAG_KEY_PRIVATE"

text \<open>The state of the process when \<^verbatim>\<open>load_hsm\<close> has called \<^verbatim>\<open>open\<close> on \<open>path\<close>.\<close>

definition start :: "string \<Rightarrow> sys" where
  "start path =
     init_sys\<lparr>bip32 := (bip32 init_sys)\<lparr>version := BIP32_VER_MAIN_PRIVATE\<rparr>,
              key_version := \<lparr>bip32_pubkey_version = BIP32_VER_MAIN_PUBLIC,
                               bip32_privkey_version = BIP32_VER_MAIN_PRIVATE\<rparr>,
              calls := [Call_open path]\<rparr>"

text \<open>What the loop of \<^verbatim>\<open>dump_xpriv\<close> assigns to \<^verbatim>\<open>secretstuff.bip32\<close> before serializing it.\<close>

definition rerooted :: "ext_key \<Rightarrow> ext_key" where
  "rerooted k = k\<lparr>version := BIP32_VER_MAIN_PRIVATE, depth := 0, parent160 := 0\<rparr>"

definition serialize_call :: "ext_key \<Rightarrow> call" where
  "serialize_call k = Call_bip32_key_serialize k BIP32_FLAG_KEY_PRIVATE BIP32_SERIALIZED_LEN"

text \<open>The string that \<^verbatim>\<open>dump_xpriv\<close> prints for the derived key \<open>k\<close>.\<close>

definition xpriv_line :: "lib \<Rightarrow> ext_key \<Rightarrow> string" where
  "xpriv_line L k =
     wally_base58_from_bytes L
       (take BIP32_SERIALIZED_LEN
          (snd (bip32_key_serialize L (rerooted k) BIP32_FLAG_KEY_PRIVATE BIP32_SERIALIZED_LEN)))
       BASE58_FLAG_CHECKSUM"

text \<open>The state when \<^verbatim>\<open>populate_secretstuff\<close> is entered with the secret read.\<close>

definition loaded :: "string \<Rightarrow> int \<Rightarrow> u8 list \<Rightarrow> sys" where
  "loaded path err secret = (start path)\<lparr>errno := err, hsm_secret := secret\<rparr>"

text \<open>The key m/0/0 of a master key.\<close>

definition grandchild :: "lib \<Rightarrow> ext_key \<Rightarrow> ext_key" where
  "grandchild L master = snd (derive L (snd (derive L master)))"

text \<open>The state when the loop has returned at the first accepted salt \<open>n\<close>.\<close>

definition whitened :: "lib \<Rightarrow> string \<Rightarrow> int \<Rightarrow> u8 list \<Rightarrow> nat \<Rightarrow> sys" where
  "whitened L path err secret n =
     (loaded path err secret)\<lparr>calls :=
        Call_open path # whitening L secret BIP32_VER_MAIN_PRIVATE n\<rparr>"

text \<open>How the process ends once the secret is read and salt \<open>n\<close> is the first accepted.\<close>

definition finish :: "lib \<Rightarrow> string \<Rightarrow> int \<Rightarrow> u8 list \<Rightarrow> nat \<Rightarrow> halt \<times> sys" where
  "finish L path err secret n =
     (let master = master_key L secret BIP32_VER_MAIN_PRIVATE n;
          child = snd (derive L master);
          s1 = whitened L path err secret n
      in if fst (derive L master) \<noteq> WALLY_OK
         then (Exited 1, s1\<lparr>calls := calls s1 @ [derive_call master],
                            stderr := ''Can't derive child bip32 key''\<rparr>)
         else if fst (derive L child) \<noteq> WALLY_OK
         then (Exited 1, s1\<lparr>calls := calls s1 @ [derive_call master, derive_call child],
                            bip32 := grandchild L master,
                            stderr := ''Can't derive private bip32 key''\<rparr>)
         else if \<not> key_is_valid L (rerooted (grandchild L master))
         then (Aborted, s1\<lparr>calls := calls s1 @ [derive_call master, derive_call child,
                                    serialize_call (rerooted (grandchild L master))],
                           bip32 := rerooted (grandchild L master)\<rparr>)
         else (Exited 0, s1\<lparr>calls := calls s1 @ [derive_call master, derive_call child,
                                     serialize_call (rerooted (grandchild L master))],
                            bip32 := rerooted (grandchild L master),
                            stdout := xpriv_line L (grandchild L master) @ newline\<rparr>))"

text \<open>The calls that are child derivations.\<close>

fun is_child_derivation :: "call \<Rightarrow> bool" where
  "is_child_derivation (Call_bip32_key_from_parent parent i f) = True"
| "is_child_derivation c = False"

text \<open>Modelled from the spec: the child index includes a hardened-flag bit, the top bit of the 32-bit index.\<close>

definition hardened_index :: "u32 \<Rightarrow> bool" where
  "hardened_index i = bit i 31"

text \<open>An environment for tests: one file, \<^verbatim>\<open>hsm_secret\<close>, with the given contents and reads.\<close>

definition mock_env :: "u8 list \<Rightarrow> read_event list \<Rightarrow> env" where
  "mock_env contents evs =
     \<lparr>fs = (\<lambda>path. if path = ''hsm_secret'' then Inr contents else Inl 2),
      reads = evs,
      strerror = (\<lambda>e. if e = 0 then ''Success'' else if e = 2 then ''No such file or directory''
                       else ''Input/output error'')\<rparr>"

text \<open>The failures of a run, read off its environment and its calls.\<close>

definition cannot_open :: "env \<Rightarrow> string list \<Rightarrow> bool" where
  "cannot_open E argv = (case fs E (argv ! 1) of Inl e \<Rightarrow> True | Inr contents \<Rightarrow> False)"

definition cannot_read :: "env \<Rightarrow> string list \<Rightarrow> bool" where
  "cannot_read E argv =
     (case fs E (argv ! 1) of
        Inl e \<Rightarrow> False
      | Inr contents \<Rightarrow> \<not> fst (read_all \<lparr>pending = contents, script = reads E\<rparr> 0 [] 32))"

fun failed_derivation :: "lib \<Rightarrow> call \<Rightarrow> bool" where
  "failed_derivation L (Call_bip32_key_from_parent parent i f) =
     (fst (bip32_key_from_parent L parent i f) \<noteq> WALLY_OK)"
| "failed_derivation L c = False"

fun failed_assertion :: "lib \<Rightarrow> call \<Rightarrow> bool" where
  "failed_assertion L (Call_bip32_key_serialize k f n) =
     (fst (bip32_key_serialize L k f n) \<noteq> WALLY_OK)"
| "failed_assertion L c = False"

text \<open>What a call of \<^verbatim>\<open>read_all\<close> leaves to its caller: the result, the bytes stored and errno.\<close>

definition outcome :: "bool \<times> u8 list \<times> int \<times> fd_state \<Rightarrow> bool \<times> u8 list \<times> int" where
  "outcome r = (fst r, fst (snd r), fst (snd (snd r)))"

text \<open>The 78 bytes that \<^verbatim>\<open>bip32_key_serialize\<close> writes for a private key.\<close>

definition payload :: "ext_key \<Rightarrow> u8 list" where
  "payload k =
     be_bytes 4 (version k) @ [depth k] @ take 4 (be_bytes 20 (parent160 k)) @
     be_bytes 4 (child_num k) @ be_bytes 32 (chain_code k) @ 0 # be_bytes 32 (priv_key k)"

text \<open>The number that a little-endian byte sequence stands for.\<close>

definition le_nat :: "u8 list \<Rightarrow> nat" where
  "le_nat bs = foldr (\<lambda>b n. unat b + 256 * n) bs 0"

text \<open>
  A test double of the library, as the spec proposes for the retry loop:
  \<^verbatim>\<open>bip32_key_from_seed\<close> rejects the candidates of the first \<open>rejected\<close> salts, and
  \<^verbatim>\<open>bip32_key_from_parent\<close> fails on a parent of depth \<open>derivable\<close> or more. A derived
  key records its depth and a non-zero parent hash.
\<close>

definition mock_lib :: "nat \<Rightarrow> nat \<Rightarrow> lib" where
  "mock_lib rejected derivable =
     \<lparr>hkdf_sha256 = (\<lambda>okm_size salt ikm info. take okm_size (salt @ ikm)),
      bip32_key_from_seed = (\<lambda>seed v flags.
        if unat (hd seed) < rejected then (WALLY_ERROR, bip32 init_sys)
        else (WALLY_OK, (bip32 init_sys)\<lparr>version := v, priv_key := 7\<rparr>)),
      bip32_key_from_parent = (\<lambda>parent child flags.
        if derivable \<le> unat (depth parent) then (WALLY_ERROR, bip32 init_sys)
        else (WALLY_OK, parent\<lparr>depth := depth parent + 1, child_num := child,
                parent160 := 0xA1B2C3D4000000000000000000000000000000FF,
                priv_key := priv_key parent + 1\<rparr>)),
      key_is_valid = (\<lambda>k. True),
      sha256 = (\<lambda>bs. of_nat (length bs))\<rparr>"

section \<open>Properties of read_all\<close>

lemma read_all_zero: "read_all fd err stored 0 = (True, stored, err, fd)"
  by (simp add: read_all.simps)

lemma read_all_intr:
  assumes "sz \<noteq> 0" and "sys_read fd sz err = (dn, EINTR, bs, fd1)" and "dn < 0"
  shows "read_all fd err stored sz = read_all fd1 EINTR stored sz"
  using assms by (subst read_all.simps) simp

lemma read_all_fail:
  assumes "sz \<noteq> 0" and "sys_read fd sz err = (dn, e1, bs, fd1)"
    and "dn \<le> 0" and "\<not> (dn < 0 \<and> e1 = EINTR)"
  shows "read_all fd err stored sz = (False, stored, e1, fd1)"
  using assms by (subst read_all.simps) auto

lemma read_all_more:
  assumes "sz \<noteq> 0" and "sys_read fd sz err = (dn, e1, bs, fd1)" and "0 < dn"
  shows "read_all fd err stored sz = read_all fd1 e1 (stored @ bs) (sz - nat dn)"
  using assms by (subst read_all.simps) simp

lemma read_all_copies:
  "read_all fd err stored sz = (ok, stored', err', fd') \<Longrightarrow>
   \<exists>n. n \<le> sz \<and> n \<le> length (pending fd) \<and> stored' = stored @ take n (pending fd) \<and>
       pending fd' = drop n (pending fd) \<and> (ok \<longleftrightarrow> n = sz)"
proof (induction fd err stored sz rule: read_all.induct)
  case (1 fd err stored sz)
  show ?case
  proof (cases "sz = 0")
    case True
    with "1.prems" show ?thesis
      by (auto simp: read_all_zero)
  next
    case False
    obtain dn e1 bs fd1 where r: "sys_read fd sz err = (dn, e1, bs, fd1)"
      by (cases "sys_read fd sz err") auto
    consider (intr) "dn < 0" "e1 = EINTR" | (fail) "dn \<le> 0" "\<not> (dn < 0 \<and> e1 = EINTR)"
      | (more) "0 < dn"
      by fastforce
    then show ?thesis
    proof cases
      case intr
      with False r "1.prems" have "read_all fd1 e1 stored sz = (ok, stored', err', fd')"
        by (simp add: read_all_intr [of sz fd err dn bs fd1])
      moreover have "dn < 0 \<and> e1 = EINTR"
        using intr by simp
      ultimately obtain n where "n \<le> sz" "n \<le> length (pending fd1)" "stored' = stored @ take n (pending fd1)"
        "pending fd' = drop n (pending fd1)" "ok \<longleftrightarrow> n = sz"
        using "1.IH"(1) [OF False r [symmetric] refl refl] by blast
      moreover have "pending fd1 = pending fd"
        using sys_read_error [OF r] intr by simp
      ultimately show ?thesis by auto
    next
      case fail
      with False r "1.prems" have res: "ok = False" "stored' = stored" "fd' = fd1"
        by (auto simp: read_all_fail [of sz fd err dn e1 bs fd1])
      have "pending fd1 = pending fd"
      proof (cases "dn < 0")
        case True
        then show ?thesis using sys_read_error [OF r] by simp
      next
        case False
        with fail have "dn = 0" by simp
        with sys_read_count [OF r] show ?thesis by simp
      qed
      with res False show ?thesis
        by (intro exI [of _ 0]) auto
    next
      case more
      from sys_read_count [OF r] more
      have c: "dn = int (length bs)" "length bs \<le> sz" "bs = take (length bs) (pending fd)"
        "pending fd1 = drop (length bs) (pending fd)" "0 < length bs"
        by auto
      from more False r "1.prems"
      have "read_all fd1 e1 (stored @ bs) (sz - nat dn) = (ok, stored', err', fd')"
        by (simp add: read_all_more [of sz fd err dn e1 bs fd1])
      moreover have "\<not> (dn < 0 \<and> e1 = EINTR)" and "\<not> dn \<le> 0"
        using more by simp_all
      ultimately obtain n where n: "n \<le> sz - nat dn" "n \<le> length (pending fd1)"
        "stored' = (stored @ bs) @ take n (pending fd1)"
        "pending fd' = drop n (pending fd1)" "ok \<longleftrightarrow> n = sz - nat dn"
        using "1.IH"(2) [OF False r [symmetric] refl refl] by blast
      have len: "length bs \<le> length (pending fd)"
        using c(3) by (metis length_take min.cobounded1)
      have "bs @ take n (pending fd1) = take (length bs + n) (pending fd)"
        using c(3,4) by (metis take_add)
      moreover have "pending fd' = drop (length bs + n) (pending fd)"
        using n(4) c(4) by (simp add: add.commute)
      moreover have "length bs + n \<le> sz" "length bs + n \<le> length (pending fd)"
        "ok \<longleftrightarrow> length bs + n = sz"
        using n c len by auto
      ultimately show ?thesis
        using n(3) by (intro exI [of _ "length bs + n"]) simp
    qed
  qed
qed

lemma read_all_benign:
  "list_all benign (script fd) \<Longrightarrow> sz \<le> length (pending fd) \<Longrightarrow> fst (read_all fd err stored sz)"
proof (induction fd err stored sz rule: read_all.induct)
  case (1 fd err stored sz)
  show ?case
  proof (cases "sz = 0")
    case True
    then show ?thesis by (simp add: read_all_zero)
  next
    case False
    obtain dn e1 bs fd1 where r: "sys_read fd sz err = (dn, e1, bs, fd1)"
      by (cases "sys_read fd sz err") auto
    have b1: "list_all benign (script fd1)"
      using r "1.prems"(1)
      by (auto simp: sys_read_def Let_def split: list.splits read_event.splits)
    have neg: "dn < 0 \<Longrightarrow> e1 = EINTR"
      using r "1.prems"(1)
      by (auto simp: sys_read_def Let_def split: list.splits read_event.splits)
    have pos: "0 \<le> dn \<Longrightarrow> 0 < dn"
      using r "1.prems"(2) False
      by (auto simp: sys_read_def Let_def split: list.splits read_event.splits)
    show ?thesis
    proof (cases "dn < 0")
      case True
      with neg have c: "dn < 0 \<and> e1 = EINTR" by simp
      have "pending fd1 = pending fd"
        using sys_read_error [OF r] True by simp
      with "1.prems"(2) have "sz \<le> length (pending fd1)" by simp
      from "1.IH"(1) [OF False r [symmetric] refl refl c b1 this]
      show ?thesis
        using c r False by (simp add: read_all_intr [of sz fd err dn bs fd1])
    next
      case False
      with pos have p: "0 < dn" by simp
      then have c1: "\<not> (dn < 0 \<and> e1 = EINTR)" and c2: "\<not> dn \<le> 0" by simp_all
      from sys_read_count [OF r] p
      have c: "dn = int (length bs)" "pending fd1 = drop (length bs) (pending fd)"
        by auto
      with "1.prems"(2) have "sz - nat dn \<le> length (pending fd1)" by simp
      from "1.IH"(2) [OF \<open>sz \<noteq> 0\<close> r [symmetric] refl refl c1 c2 b1 this]
      show ?thesis
        using p r \<open>sz \<noteq> 0\<close> by (simp add: read_all_more [of sz fd err dn e1 bs fd1])
    qed
  qed
qed



section \<open>Seed whitening\<close>

lemma seed_loop_reject:
  assumes "\<not> accepts L (hsm_secret s) (privver s) salt"
  shows "seed_loop L salt s =
           seed_loop L (salt + 1) (s\<lparr>calls := calls s @ attempt L (hsm_secret s) (privver s) salt\<rparr>)"
  using assms
  by (subst seed_loop.simps)
    (simp add: accepts_def candidate_def attempt_def privver_def called_def Let_def)

lemma seed_loop_accept:
  assumes "accepts L (hsm_secret s) (privver s) salt"
  shows "seed_loop L salt s =
           Some (snd (bip32_key_from_seed L (candidate L (hsm_secret s) salt) (privver s) 0),
                 salt + 1,
                 s\<lparr>calls := calls s @ attempt L (hsm_secret s) (privver s) salt\<rparr>)"
  using assms
  by (subst seed_loop.simps)
    (simp add: accepts_def candidate_def attempt_def privver_def called_def Let_def)

lemma seed_loop_first:
  assumes "accepts L (hsm_secret s) (privver s) (salt + of_nat n)"
    and "\<forall>j<n. \<not> accepts L (hsm_secret s) (privver s) (salt + of_nat j)"
  shows "seed_loop L salt s =
           Some (snd (bip32_key_from_seed L (candidate L (hsm_secret s) (salt + of_nat n)) (privver s) 0),
                 salt + of_nat n + 1,
                 s\<lparr>calls := calls s @
                    concat (map (\<lambda>j. attempt L (hsm_secret s) (privver s) (salt + of_nat j)) [0..<Suc n])\<rparr>)"
  using assms
proof (induction n arbitrary: salt s)
  case 0
  then show ?case by (simp add: seed_loop_accept)
next
  case (Suc n)
  let ?s = "s\<lparr>calls := calls s @ attempt L (hsm_secret s) (privver s) salt\<rparr>"
  have sec: "hsm_secret ?s = hsm_secret s" "privver ?s = privver s"
    by (simp_all add: privver_def)
  from Suc.prems(2) have "\<not> accepts L (hsm_secret s) (privver s) salt"
    by (metis add.right_neutral semiring_1_class.of_nat_0 zero_less_Suc)
  then have step: "seed_loop L salt s = seed_loop L (salt + 1) ?s"
    by (rule seed_loop_reject)
  have a: "accepts L (hsm_secret ?s) (privver ?s) (salt + 1 + of_nat n)"
    using Suc.prems(1) by (simp add: sec ac_simps)
  have b: "\<forall>j<n. \<not> accepts L (hsm_secret ?s) (privver ?s) (salt + 1 + of_nat j)"
  proof (intro allI impI)
    fix j assume "j < n"
    then have "Suc j < Suc n" by simp
    with Suc.prems(2) have "\<not> accepts L (hsm_secret s) (privver s) (salt + of_nat (Suc j))"
      by blast
    then show "\<not> accepts L (hsm_secret ?s) (privver ?s) (salt + 1 + of_nat j)"
      by (simp add: sec ac_simps)
  qed
  have m: "map (\<lambda>j. attempt L (hsm_secret s) (privver s) (salt + of_nat j)) [0..<Suc (Suc n)] =
        attempt L (hsm_secret s) (privver s) salt #
        map (\<lambda>j. attempt L (hsm_secret s) (privver s) (salt + 1 + of_nat j)) [0..<Suc n]"
  proof -
    have "[0..<Suc (Suc n)] = 0 # [Suc 0..<Suc (Suc n)]"
      by (rule upt_conv_Cons) simp
    also have "[Suc 0..<Suc (Suc n)] = map Suc [0..<Suc n]"
      by (rule map_Suc_upt [symmetric])
    finally have "[0..<Suc (Suc n)] = 0 # map Suc [0..<Suc n]" .
    then show ?thesis
      by (simp add: comp_def ac_simps del: upt_Suc)
  qed
  show ?case
    unfolding step Suc.IH [OF a b] sec m
    by (simp add: ac_simps sec del: upt_Suc)
qed

lemma seed_loop_returns:
  assumes "seed_loop L salt s = Some r"
  shows "\<exists>n. accepts L (hsm_secret s) (privver s) (salt + of_nat n)"
proof (rule seed_loop.raw_induct
    [where P = "\<lambda>L salt s r. \<exists>n. accepts L (hsm_secret s) (privver s) (salt + of_nat n)",
      rotated, OF assms], goal_cases)
  case (1 loop L salt s r)
  let ?s = "s\<lparr>calls := calls s @ attempt L (hsm_secret s) (privver s) salt\<rparr>"
  show ?case
  proof (cases "accepts L (hsm_secret s) (privver s) salt")
    case True
    then have "accepts L (hsm_secret s) (privver s) (salt + of_nat 0)" by simp
    then show ?thesis by blast
  next
    case False
    with 1(2) have "loop L (salt + 1) ?s = Some r"
      by (simp add: accepts_def candidate_def attempt_def privver_def called_def Let_def)
    from 1(1) [OF this] obtain n where "accepts L (hsm_secret s) (privver s) (salt + 1 + of_nat n)"
      by (auto simp: privver_def)
    then have "accepts L (hsm_secret s) (privver s) (salt + of_nat (Suc n))"
      by (simp add: ac_simps)
    then show ?thesis by blast
  qed
qed

lemma accepts_least:
  assumes "accepts L secret v (of_nat n)"
  shows "\<exists>m<2 ^ 32. accepts L secret v (of_nat m) \<and> (\<forall>j<m. \<not> accepts L secret v (of_nat j))"
proof -
  define m where "m = (LEAST k. accepts L secret v (of_nat k))"
  have acc: "accepts L secret v (of_nat m)"
    unfolding m_def using assms by (rule LeastI)
  have least: "\<And>j. j < m \<Longrightarrow> \<not> accepts L secret v (of_nat j)"
    unfolding m_def by (rule not_less_Least)
  have "m < 2 ^ 32"
  proof (rule ccontr)
    assume "\<not> m < 2 ^ 32"
    then have ge: "2 ^ 32 \<le> m" by simp
    have "(of_nat (m mod 2 ^ 32) :: u32) = of_nat m"
      by (simp add: word_of_nat_eq_iff take_bit_eq_mod)
    moreover have "m mod 2 ^ 32 < m"
    proof -
      have "m mod 2 ^ 32 < (2 ^ 32 :: nat)" by simp
      with ge show ?thesis by linarith
    qed
    ultimately show False using least acc by metis
  qed
  with acc least show ?thesis by blast
qed

lemma le_nat_le_bytes:
  assumes "k < 2 ^ 32"
  shows "le_nat (le_bytes 4 (of_nat k :: u32)) = k"
proof -
  have u: "unat (of_nat k :: u32) = k"
    using assms by (simp add: unat_of_nat)
  have b: "unat (ucast (drop_bit n (of_nat k :: u32)) :: u8) = (k div 2 ^ n) mod 256" for n
  proof -
    have "unat (ucast (drop_bit n (of_nat k :: u32)) :: u8) =
        take_bit 8 (unat (drop_bit n (of_nat k :: u32)))"
      by (simp add: unsigned_ucast_eq)
    also have "\<dots> = take_bit 8 (drop_bit n (unat (of_nat k :: u32)))"
      by (simp only: unat_drop_bit_eq)
    also have "\<dots> = (k div 2 ^ n) mod 256"
      by (simp only: u) (simp add: take_bit_eq_mod drop_bit_eq_div)
    finally show ?thesis .
  qed
  have "[0..<4] = [0, 1, 2, 3]"
    by (simp add: upt_rec)
  then have "le_nat (le_bytes 4 (of_nat k :: u32)) =
      k mod 256 + 256 * ((k div 2 ^ 8) mod 256 + 256 * ((k div 2 ^ 16) mod 256 +
        256 * ((k div 2 ^ 24) mod 256)))"
    using b [of 0] b [of 8] b [of 16] b [of 24] by (simp add: le_nat_def le_bytes_def)
  also have "\<dots> = k"
  proof -
    define k1 k2 k3 where "k1 = k div 256" and "k2 = k1 div 256" and "k3 = k2 div 256"
    have d: "k div 2 ^ 8 = k1" "k div 2 ^ 16 = k2" "k div 2 ^ 24 = k3"
      by (simp_all add: k1_def k2_def k3_def div_mult2_eq)
    have "k3 < 256"
      using assms by (simp add: k1_def k2_def k3_def div_mult2_eq less_mult_imp_div_less)
    then have "k3 mod 256 = k3" by simp
    moreover have "k2 mod 256 + 256 * k3 = k2" "k1 mod 256 + 256 * k2 = k1"
      "k mod 256 + 256 * k1 = k"
      by (simp_all add: k1_def k2_def k3_def)
    ultimately show ?thesis
      by (simp only: d)
  qed
  finally show ?thesis .
qed

text \<open>The loop from salt 0, in any state: what it returns and when it returns.\<close>

lemma seed_loop_spec:
  "(\<forall>n. n < 2 ^ 32 \<and> accepts L (hsm_secret s) (privver s) (of_nat n) \<and>
        (\<forall>j<n. \<not> accepts L (hsm_secret s) (privver s) (of_nat j)) \<longrightarrow>
      seed_loop L 0 s =
        Some (snd (bip32_key_from_seed L (candidate L (hsm_secret s) (of_nat n)) (privver s) 0),
              of_nat (Suc n),
              s\<lparr>calls := calls s @
                 concat (map (\<lambda>k. attempt L (hsm_secret s) (privver s) (of_nat k)) [0..<Suc n])\<rparr>)) \<and>
   (seed_loop L 0 s \<noteq> None \<longrightarrow>
      (\<exists>n<2 ^ 32. accepts L (hsm_secret s) (privver s) (of_nat n) \<and>
         (\<forall>j<n. \<not> accepts L (hsm_secret s) (privver s) (of_nat j)))) \<and>
   (\<forall>k<2 ^ 32. length (le_bytes 4 (of_nat k :: u32)) = 4 \<and>
      le_nat (le_bytes 4 (of_nat k :: u32)) = k)"
proof (intro conjI allI impI)
  fix n
  assume "n < 2 ^ 32 \<and> accepts L (hsm_secret s) (privver s) (of_nat n) \<and>
        (\<forall>j<n. \<not> accepts L (hsm_secret s) (privver s) (of_nat j))"
  then show "seed_loop L 0 s =
        Some (snd (bip32_key_from_seed L (candidate L (hsm_secret s) (of_nat n)) (privver s) 0),
              of_nat (Suc n),
              s\<lparr>calls := calls s @
                 concat (map (\<lambda>k. attempt L (hsm_secret s) (privver s) (of_nat k)) [0..<Suc n])\<rparr>)"
    using seed_loop_first [of L s 0 n] by simp
next
  assume "seed_loop L 0 s \<noteq> None"
  then obtain r where "seed_loop L 0 s = Some r" by blast
  from seed_loop_returns [OF this] obtain n where "accepts L (hsm_secret s) (privver s) (of_nat n)"
    by auto
  then show "\<exists>n<2 ^ 32. accepts L (hsm_secret s) (privver s) (of_nat n) \<and>
         (\<forall>j<n. \<not> accepts L (hsm_secret s) (privver s) (of_nat j))"
    by (rule accepts_least)
next
  fix k :: nat
  assume "k < 2 ^ 32"
  then show "le_nat (le_bytes 4 (of_nat k :: u32)) = k"
    by (rule le_nat_le_bytes)
next
  fix k :: nat
  show "length (le_bytes 4 (of_nat k :: u32)) = 4"
    by (simp add: le_bytes_def)
qed

section \<open>The runs of the program\<close>

lemma seed_loop_result:
  assumes "seed_loop L 0 s = Some (m, salt, s1)"
  shows "\<exists>n<2 ^ 32. first_accepted L (hsm_secret s) (privver s) n \<and>
           m = master_key L (hsm_secret s) (privver s) n \<and>
           s1 = s\<lparr>calls := calls s @ whitening L (hsm_secret s) (privver s) n\<rparr>"
proof -
  from seed_loop_returns [OF assms]
  obtain k where "accepts L (hsm_secret s) (privver s) (of_nat k)" by auto
  from accepts_least [OF this] obtain n where n: "n < 2 ^ 32"
    "accepts L (hsm_secret s) (privver s) (of_nat n)"
    "\<forall>j<n. \<not> accepts L (hsm_secret s) (privver s) (of_nat j)"
    by blast
  from seed_loop_first [of L s 0 n] n(2,3) assms
  have "m = master_key L (hsm_secret s) (privver s) n"
    "s1 = s\<lparr>calls := calls s @ whitening L (hsm_secret s) (privver s) n\<rparr>"
    by (simp_all add: master_key_def whitening_def)
  with n show ?thesis
    unfolding first_accepted_def by blast
qed

lemma seed_loop_None:
  assumes "seed_loop L 0 s = None"
  shows "\<not> first_accepted L (hsm_secret s) (privver s) n"
  using seed_loop_first [of L s 0 n] assms by (auto simp: first_accepted_def)

lemma populate_secretstuff_eq:
  "populate_secretstuff L s0 =
     (case seed_loop L 0 (mainnet s0) of
        None \<Rightarrow> None
      | Some (master, salt, s1) \<Rightarrow>
          Some (if fst (derive L master) \<noteq> WALLY_OK
                then Inl (Exited 1,
                       s1\<lparr>calls := calls s1 @ [derive_call master],
                          stderr := stderr s1 @ ''Can't derive child bip32 key''\<rparr>)
                else if fst (derive L (snd (derive L master))) \<noteq> WALLY_OK
                then Inl (Exited 1,
                       s1\<lparr>calls := calls s1 @ [derive_call master, derive_call (snd (derive L master))],
                          bip32 := snd (derive L (snd (derive L master))),
                          stderr := stderr s1 @ ''Can't derive private bip32 key''\<rparr>)
                else Inr (s1\<lparr>calls := calls s1 @ [derive_call master, derive_call (snd (derive L master))],
                          bip32 := snd (derive L (snd (derive L master)))\<rparr>)))"
  by (simp add: populate_secretstuff_def mainnet_def derive_def derive_call_def called_def fatal1_def
      Let_def split: option.splits prod.splits)

lemma print_versions_eq:
  "print_versions L versions s =
     (if \<not> key_is_valid L (rerooted (bip32 s))
      then Inl (Aborted, s\<lparr>bip32 := rerooted (bip32 s),
                           calls := calls s @ [serialize_call (rerooted (bip32 s))]\<rparr>)
      else Inr (s\<lparr>bip32 := rerooted (bip32 s),
                  calls := calls s @ [serialize_call (rerooted (bip32 s))],
                  stdout := stdout s @ xpriv_line L (bip32 s) @ newline\<rparr>))"
  by (simp add: versions_def rerooted_def serialize_call_def xpriv_line_def called_def Let_def
      bip32_key_serialize_def)

lemma read_all_ok:
  assumes "read_all fd err [] sz = (True, st, err', fd')"
  shows "st = take sz (pending fd) \<and> length st = sz \<and> sz \<le> length (pending fd)"
  using read_all_copies [OF assms] by auto

lemma load_hsm_eq:
  "load_hsm L E (Some path) s0 =
     (case fs E path of
        Inl e \<Rightarrow>
          Some (Inl (Exited 1,
            s0\<lparr>calls := calls s0 @ [Call_open path], errno := e,
               stderr := stderr s0 @ ''opening: '' @ strerror E e @ newline\<rparr>))
      | Inr contents \<Rightarrow>
          (case read_all \<lparr>pending = contents, script = reads E\<rparr> (errno s0) [] 32 of
             (ok, st, err, fd) \<Rightarrow>
               if \<not> ok
               then Some (Inl (Exited 1,
                 s0\<lparr>calls := calls s0 @ [Call_open path], errno := err,
                    hsm_secret := st @ drop (length st) (hsm_secret s0),
                    stderr := stderr s0 @ ''reading: '' @ strerror E err @ newline\<rparr>))
               else populate_secretstuff L
                 (s0\<lparr>calls := calls s0 @ [Call_open path], errno := err,
                     hsm_secret := take 32 contents @ drop 32 (hsm_secret s0)\<rparr>)))"
proof (cases "fs E path")
  case (Inl e)
  then show ?thesis
    by (simp add: load_hsm_def called_def fatal_def Let_def)
next
  case (Inr contents)
  obtain ok st err fd where
    r: "read_all \<lparr>pending = contents, script = reads E\<rparr> (errno s0) [] 32 = (ok, st, err, fd)"
    by (cases "read_all \<lparr>pending = contents, script = reads E\<rparr> (errno s0) [] 32") auto
  show ?thesis
  proof (cases ok)
    case True
    with r read_all_ok [of "\<lparr>pending = contents, script = reads E\<rparr>" "errno s0" 32 st err fd]
    have "st = take 32 contents" "length st = 32" by simp_all
    with True Inr r show ?thesis
      by (simp add: load_hsm_def called_def fatal_def Let_def)
  next
    case False
    with Inr r show ?thesis
      by (simp add: load_hsm_def called_def fatal_def Let_def)
  qed
qed

lemma dump_xpriv_eq:
  "dump_xpriv L E (Some path) init_sys =
     (case fs E path of
        Inl e \<Rightarrow>
          Some (Inl (Exited 1,
            (start path)\<lparr>errno := e, stderr := ''opening: '' @ strerror E e @ newline\<rparr>))
      | Inr contents \<Rightarrow>
          (case read_all \<lparr>pending = contents, script = reads E\<rparr> 0 [] 32 of
             (ok, st, err, fd) \<Rightarrow>
               if \<not> ok
               then Some (Inl (Exited 1,
                 (start path)\<lparr>errno := err, hsm_secret := st @ drop (length st) (replicate 32 0),
                    stderr := ''reading: '' @ strerror E err @ newline\<rparr>))
               else
                 (case populate_secretstuff L (loaded path err (take 32 contents)) of
                    None \<Rightarrow> None
                  | Some (Inl h) \<Rightarrow> Some (Inl h)
                  | Some (Inr s1) \<Rightarrow>
                      (case print_versions L versions s1 of
                         Inl h \<Rightarrow> Some (Inl h)
                       | Inr s2 \<Rightarrow> Some (Inr (0, s2))))))"
proof -
  let ?s = "init_sys\<lparr>bip32 := (bip32 init_sys)\<lparr>version := BIP32_VER_MAIN_PRIVATE\<rparr>,
                 key_version :=
                   \<lparr>bip32_pubkey_version = BIP32_VER_MAIN_PUBLIC,
                    bip32_privkey_version = BIP32_VER_MAIN_PRIVATE\<rparr>\<rparr>"
  have d: "dump_xpriv L E (Some path) init_sys =
      (case load_hsm L E (Some path) ?s of
           None \<Rightarrow> None
         | Some (Inl h) \<Rightarrow> Some (Inl h)
         | Some (Inr s1) \<Rightarrow>
             (case print_versions L versions s1 of
                Inl h \<Rightarrow> Some (Inl h)
              | Inr s2 \<Rightarrow> Some (Inr (0, s2))))"
    by (simp add: dump_xpriv_def Let_def)
  have i: "errno ?s = 0" "calls ?s = []" "stderr ?s = []" "hsm_secret ?s = replicate 32 0"
    by (simp_all add: init_sys_def)
  have st: "?s\<lparr>calls := [Call_open path]\<rparr> = start path"
    by (simp add: start_def)
  show ?thesis
  proof (cases "fs E path")
    case (Inl e)
    then show ?thesis
      unfolding d load_hsm_eq i by (simp add: st [symmetric])
  next
    case (Inr contents)
    obtain ok st' err fd where
      r: "read_all \<lparr>pending = contents, script = reads E\<rparr> 0 [] 32 = (ok, st', err, fd)"
      by (cases "read_all \<lparr>pending = contents, script = reads E\<rparr> 0 [] 32") auto
    show ?thesis
    proof (cases ok)
      case True
      with r read_all_ok [of "\<lparr>pending = contents, script = reads E\<rparr>" 0 32 st' err fd]
      have "length (take 32 contents) = 32" by simp
      then have "take 32 contents @ drop 32 (replicate 32 0) = take 32 contents" by simp
      with True Inr r show ?thesis
        unfolding d load_hsm_eq i by (simp add: st [symmetric] loaded_def)
    next
      case False
      with Inr r show ?thesis
        unfolding d load_hsm_eq i by (simp add: st [symmetric])
    qed
  qed
qed

lemma loaded_simps:
  "hsm_secret (loaded path err secret) = secret"
  "privver (loaded path err secret) = BIP32_VER_MAIN_PRIVATE"
  "calls (loaded path err secret) = [Call_open path]"
  "stdout (loaded path err secret) = []"
  "stderr (loaded path err secret) = []"
  "mainnet (loaded path err secret) = loaded path err secret"
  by (simp_all add: loaded_def start_def init_sys_def privver_def mainnet_def)

lemma whitened_simps:
  "stderr (whitened L path err secret n) = []"
  "stdout (whitened L path err secret n) = []"
  "calls (whitened L path err secret n) =
     Call_open path # whitening L secret BIP32_VER_MAIN_PRIVATE n"
  by (simp_all add: whitened_def loaded_simps)

lemma main_usage:
  assumes "length argv \<noteq> 2"
  shows "main L E argv = Some (usage init_sys)"
  using assms by (simp add: main_def)

lemma main_open_fails:
  assumes "length argv = 2" and "fs E (argv ! 1) = Inl e"
  shows "main L E argv =
    Some (Exited 1, (start (argv ! 1))\<lparr>errno := e,
                      stderr := ''opening: '' @ strerror E e @ newline\<rparr>)"
  using assms by (simp add: main_def dump_xpriv_eq)

lemma main_read_fails:
  assumes "length argv = 2" and "fs E (argv ! 1) = Inr contents"
    and "read_all \<lparr>pending = contents, script = reads E\<rparr> 0 [] 32 = (False, st, err, fd)"
  shows "main L E argv =
    Some (Exited 1, (start (argv ! 1))\<lparr>errno := err,
                      hsm_secret := st @ drop (length st) (replicate 32 0),
                      stderr := ''reading: '' @ strerror E err @ newline\<rparr>)"
  using assms by (simp add: main_def dump_xpriv_eq)

lemma main_read_ok:
  assumes "length argv = 2" and "fs E (argv ! 1) = Inr contents"
    and "read_all \<lparr>pending = contents, script = reads E\<rparr> 0 [] 32 = (True, st, err, fd)"
  shows "main L E argv =
    (case seed_loop L 0 (loaded (argv ! 1) err (take 32 contents)) of
       None \<Rightarrow> None
     | Some (master, salt, s1) \<Rightarrow>
         (case populate_secretstuff L (loaded (argv ! 1) err (take 32 contents)) of
            None \<Rightarrow> None
          | Some (Inl h) \<Rightarrow> Some h
          | Some (Inr s1) \<Rightarrow>
              (case print_versions L versions s1 of
                 Inl h \<Rightarrow> Some h
               | Inr s2 \<Rightarrow> Some (Exited 0, s2))))"
  using assms
  by (simp add: main_def dump_xpriv_eq populate_secretstuff_eq loaded_simps
      split: option.splits sum.splits prod.splits)

lemma main_finish:
  assumes "length argv = 2" and "fs E (argv ! 1) = Inr contents"
    and "read_all \<lparr>pending = contents, script = reads E\<rparr> 0 [] 32 = (True, st, err, fd)"
    and "first_accepted L (take 32 contents) BIP32_VER_MAIN_PRIVATE n"
  shows "main L E argv = Some (finish L (argv ! 1) err (take 32 contents) n)"
proof -
  let ?s = "loaded (argv ! 1) err (take 32 contents)"
  from assms(4) seed_loop_first [of L ?s 0 n]
  have sl: "seed_loop L 0 ?s =
      Some (master_key L (take 32 contents) BIP32_VER_MAIN_PRIVATE n, of_nat n + 1,
            whitened L (argv ! 1) err (take 32 contents) n)"
    by (simp add: first_accepted_def loaded_simps master_key_def whitening_def whitened_def)
  show ?thesis
    unfolding main_read_ok [OF assms(1-3)] populate_secretstuff_eq loaded_simps sl
    by (simp add: finish_def Let_def print_versions_eq grandchild_def whitened_simps(1,2))
qed

lemma main_diverges:
  assumes "length argv = 2" and "fs E (argv ! 1) = Inr contents"
    and "read_all \<lparr>pending = contents, script = reads E\<rparr> 0 [] 32 = (True, st, err, fd)"
    and "\<forall>n. \<not> first_accepted L (take 32 contents) BIP32_VER_MAIN_PRIVATE n"
  shows "main L E argv = None"
proof (cases "seed_loop L 0 (loaded (argv ! 1) err (take 32 contents))")
  case None
  then show ?thesis
    unfolding main_read_ok [OF assms(1-3)] by simp
next
  case (Some r)
  then obtain m salt s1 where
    "seed_loop L 0 (loaded (argv ! 1) err (take 32 contents)) = Some (m, salt, s1)"
    by (cases r) auto
  from seed_loop_result [OF this] assms(4) show ?thesis
    by (auto simp: loaded_simps)
qed

lemma first_accepted_unique:
  assumes "first_accepted L secret v n" and "first_accepted L secret v m"
  shows "n = m"
  using assms unfolding first_accepted_def by (meson linorder_neqE_nat)

lemma main_cases:
  assumes "main L E argv = Some (h, s')"
  obtains (usage) "length argv \<noteq> 2" "(h, s') = usage init_sys"
  | (open_fails) e where "length argv = 2" "fs E (argv ! 1) = Inl e"
      "(h, s') = (Exited 1, (start (argv ! 1))\<lparr>errno := e,
                      stderr := ''opening: '' @ strerror E e @ newline\<rparr>)"
  | (read_fails) contents st err fd where "length argv = 2" "fs E (argv ! 1) = Inr contents"
      "read_all \<lparr>pending = contents, script = reads E\<rparr> 0 [] 32 = (False, st, err, fd)"
      "(h, s') = (Exited 1, (start (argv ! 1))\<lparr>errno := err,
                      hsm_secret := st @ drop (length st) (replicate 32 0),
                      stderr := ''reading: '' @ strerror E err @ newline\<rparr>)"
  | (finish) contents st err fd n where "length argv = 2" "fs E (argv ! 1) = Inr contents"
      "read_all \<lparr>pending = contents, script = reads E\<rparr> 0 [] 32 = (True, st, err, fd)"
      "first_accepted L (take 32 contents) BIP32_VER_MAIN_PRIVATE n"
      "(h, s') = finish L (argv ! 1) err (take 32 contents) n"
proof (cases "length argv = 2")
  case False
  with assms main_usage [of argv L E] usage show ?thesis by simp
next
  case len: True
  show ?thesis
  proof (cases "fs E (argv ! 1)")
    case (Inl e)
    with assms main_open_fails [OF len Inl] open_fails [OF len Inl] show ?thesis by simp
  next
    case (Inr contents)
    obtain ok st err fd where
      r: "read_all \<lparr>pending = contents, script = reads E\<rparr> 0 [] 32 = (ok, st, err, fd)"
      by (cases "read_all \<lparr>pending = contents, script = reads E\<rparr> 0 [] 32") auto
    show ?thesis
    proof (cases ok)
      case False
      with r have r': "read_all \<lparr>pending = contents, script = reads E\<rparr> 0 [] 32 = (False, st, err, fd)"
        by simp
      from assms main_read_fails [OF len Inr r'] read_fails [OF len Inr r'] show ?thesis by simp
    next
      case True
      with r have r': "read_all \<lparr>pending = contents, script = reads E\<rparr> 0 [] 32 = (True, st, err, fd)"
        by simp
      show ?thesis
      proof (cases "\<exists>n. first_accepted L (take 32 contents) BIP32_VER_MAIN_PRIVATE n")
        case True
        then obtain n where n: "first_accepted L (take 32 contents) BIP32_VER_MAIN_PRIVATE n" ..
        from assms main_finish [OF len Inr r' n] finish [OF len Inr r' n] show ?thesis by simp
      next
        case False
        with main_diverges [OF len Inr r'] assms show ?thesis by simp
      qed
    qed
  qed
qed

section \<open>Derivation path, exit codes and failures\<close>

lemma whitening_no_derivation: "filter is_child_derivation (whitening L secret v n) = []"
  by (simp add: whitening_def attempt_def filter_concat comp_def del: upt_Suc)

text \<open>
  Claim C3. When \<^verbatim>\<open>populate_secretstuff\<close> returns, the key stored in
  \<^verbatim>\<open>secretstuff.bip32\<close> is the result of two successful calls of
  \<^verbatim>\<open>bip32_key_from_parent\<close>: the first on the master key that the whitening loop returned,
  the second on the first's result, both with child index 0, which is not hardened, and
  the flag \<^verbatim>\<open>BIP32_FLAG_KEY_PRIVATE\<close> (the path m/0/0). These two are the only child
  derivations among the calls it makes.
\<close>

theorem fixed_path:
  assumes "populate_secretstuff L s0 = Some (Inr s')"
  shows "\<exists>master child salt s1.
           seed_loop L 0 (mainnet s0) = Some (master, salt, s1) \<and>
           bip32_key_from_parent L master 0 BIP32_FLAG_KEY_PRIVATE = (WALLY_OK, child) \<and>
           bip32_key_from_parent L child 0 BIP32_FLAG_KEY_PRIVATE = (WALLY_OK, bip32 s') \<and>
           filter is_child_derivation (calls s') =
             filter is_child_derivation (calls s0) @
             [Call_bip32_key_from_parent master 0 BIP32_FLAG_KEY_PRIVATE,
              Call_bip32_key_from_parent child 0 BIP32_FLAG_KEY_PRIVATE] \<and>
           \<not> hardened_index 0"
proof -
  from assms obtain master salt s1 where
    sl: "seed_loop L 0 (mainnet s0) = Some (master, salt, s1)"
    by (auto simp: populate_secretstuff_eq split: option.splits)
  define child where "child = snd (derive L master)"
  from assms sl have ok: "fst (derive L master) = WALLY_OK" "fst (derive L child) = WALLY_OK"
    and s': "s' = s1\<lparr>calls := calls s1 @ [derive_call master, derive_call child],
                     bip32 := snd (derive L child)\<rparr>"
    by (auto simp: populate_secretstuff_eq child_def split: if_splits)
  from seed_loop_result [OF sl] obtain n where
    "s1 = (mainnet s0)\<lparr>calls := calls (mainnet s0) @
            whitening L (hsm_secret (mainnet s0)) (privver (mainnet s0)) n\<rparr>"
    by blast
  then have "filter is_child_derivation (calls s1) = filter is_child_derivation (calls s0)"
    by (simp add: whitening_no_derivation mainnet_def)
  with s' have "filter is_child_derivation (calls s') =
      filter is_child_derivation (calls s0) @
      [Call_bip32_key_from_parent master 0 BIP32_FLAG_KEY_PRIVATE,
       Call_bip32_key_from_parent child 0 BIP32_FLAG_KEY_PRIVATE]"
    by (simp add: derive_call_def)
  moreover have "bip32_key_from_parent L master 0 BIP32_FLAG_KEY_PRIVATE = (WALLY_OK, child)"
    using ok(1) by (simp add: derive_def child_def prod_eq_iff)
  moreover have "bip32_key_from_parent L child 0 BIP32_FLAG_KEY_PRIVATE = (WALLY_OK, bip32 s')"
    using ok(2) s' by (simp add: derive_def prod_eq_iff)
  moreover have "\<not> hardened_index 0"
    by (simp add: hardened_index_def)
  ultimately show ?thesis
    using sl by blast
qed

lemma mock_first_accepted:
  "first_accepted (mock_lib 1 d) (replicate 32 0) BIP32_VER_MAIN_PRIVATE 1"
  by (simp add: first_accepted_def accepts_def candidate_def mock_lib_def le_bytes_def upt_rec
      BIP32_ENTROPY_LEN_256_def)

theorem fixed_path_witness:
  "\<exists>s'. populate_secretstuff (mock_lib 1 2) init_sys = Some (Inr s') \<and>
        depth (bip32 s') = 2 \<and>
        length (filter is_child_derivation (calls s')) = 2"
proof -
  have fa: "first_accepted (mock_lib 1 2) (hsm_secret (mainnet init_sys)) (privver (mainnet init_sys)) 1"
    using mock_first_accepted [of 2] by (simp add: mainnet_def init_sys_def privver_def)
  then have sl: "seed_loop (mock_lib 1 2) 0 (mainnet init_sys) =
      Some (master_key (mock_lib 1 2) (hsm_secret (mainnet init_sys)) (privver (mainnet init_sys)) 1,
            of_nat 1 + 1,
            (mainnet init_sys)\<lparr>calls := calls (mainnet init_sys) @
               whitening (mock_lib 1 2) (hsm_secret (mainnet init_sys)) (privver (mainnet init_sys)) 1\<rparr>)"
    using seed_loop_first [of "mock_lib 1 2" "mainnet init_sys" 0 1]
    by (simp add: first_accepted_def master_key_def whitening_def)
  have mk: "master_key (mock_lib 1 2) (hsm_secret (mainnet init_sys)) (privver (mainnet init_sys)) 1 =
      (bip32 init_sys)\<lparr>version := BIP32_VER_MAIN_PRIVATE, priv_key := 7\<rparr>"
    by (simp add: master_key_def candidate_def mock_lib_def le_bytes_def upt_rec
        BIP32_ENTROPY_LEN_256_def mainnet_def init_sys_def privver_def)
  obtain s' where p: "populate_secretstuff (mock_lib 1 2) init_sys = Some (Inr s')"
    and d: "depth (bip32 s') = 2"
    unfolding populate_secretstuff_eq sl mk
    by (simp add: derive_def mock_lib_def init_sys_def)
  from fixed_path [OF p] have "length (filter is_child_derivation (calls s')) = 2"
    by (auto simp: mainnet_def init_sys_def)
  with p d show ?thesis by blast
qed

lemma whitening_no_failure:
  "\<not> list_ex (failed_derivation L) (whitening L' secret v n)"
  "\<not> list_ex (failed_assertion L) (whitening L' secret v n)"
  by (simp_all add: whitening_def attempt_def list_ex_iff del: upt_Suc)

lemma failed_derive_call [simp]:
  "failed_derivation L (derive_call k) \<longleftrightarrow> fst (derive L k) \<noteq> WALLY_OK"
  "\<not> failed_assertion L (derive_call k)"
  "\<not> failed_derivation L (serialize_call k)"
  "failed_assertion L (serialize_call k) \<longleftrightarrow> \<not> key_is_valid L k"
  "\<not> failed_derivation L (Call_open path)"
  "\<not> failed_assertion L (Call_open path)"
  by (simp_all add: derive_call_def derive_def serialize_call_def bip32_key_serialize_def)

text \<open>How a run that ends has ended, read off its environment and its calls.\<close>

lemma ending_exit_codes:
  assumes "main L E argv = Some (h, s')"
  shows "(h = Exited 42 \<longleftrightarrow> length argv \<noteq> 2) \<and>
         (h = Exited 1 \<longleftrightarrow>
            length argv = 2 \<and>
            (cannot_open E argv \<or> cannot_read E argv \<or> list_ex (failed_derivation L) (calls s'))) \<and>
         (h = Aborted \<longleftrightarrow> length argv = 2 \<and> list_ex (failed_assertion L) (calls s')) \<and>
         (h = Exited 0 \<longleftrightarrow>
            length argv = 2 \<and> \<not> cannot_open E argv \<and> \<not> cannot_read E argv \<and>
            \<not> list_ex (failed_derivation L) (calls s') \<and>
            \<not> list_ex (failed_assertion L) (calls s'))"
  using assms
proof (cases rule: main_cases)
  case usage
  then show ?thesis by (simp add: usage_def)
next
  case (open_fails e)
  then show ?thesis
    by (simp add: cannot_open_def cannot_read_def start_def init_sys_def)
next
  case (read_fails contents st err fd)
  then show ?thesis
    by (simp add: cannot_open_def cannot_read_def start_def init_sys_def)
next
  case (finish contents st err fd n)
  let ?m = "master_key L (take 32 contents) BIP32_VER_MAIN_PRIVATE n"
  have env: "\<not> cannot_open E argv" "\<not> cannot_read E argv"
    using finish(2,3) by (simp_all add: cannot_open_def cannot_read_def)
  consider (d1) "fst (derive L ?m) \<noteq> WALLY_OK"
    | (d2) "fst (derive L ?m) = WALLY_OK" "fst (derive L (snd (derive L ?m))) \<noteq> WALLY_OK"
    | (ab) "fst (derive L ?m) = WALLY_OK" "fst (derive L (snd (derive L ?m))) = WALLY_OK"
        "\<not> key_is_valid L (rerooted (grandchild L ?m))"
    | (ok) "fst (derive L ?m) = WALLY_OK" "fst (derive L (snd (derive L ?m))) = WALLY_OK"
        "key_is_valid L (rerooted (grandchild L ?m))"
    by blast
  then show ?thesis
  proof cases
    case d1
    with finish(1,5) env show ?thesis
      by (simp add: finish_def Let_def whitened_simps whitening_no_failure)
  next
    case d2
    with finish(1,5) env show ?thesis
      by (simp add: finish_def Let_def whitened_simps whitening_no_failure)
  next
    case ab
    with finish(1,5) env show ?thesis
      by (simp add: finish_def Let_def whitened_simps whitening_no_failure)
  next
    case ok
    with finish(1,5) env show ?thesis
      by (simp add: finish_def Let_def whitened_simps whitening_no_failure)
  qed
qed

lemma mock_read:
  "read_all \<lparr>pending = replicate 32 0, script = []\<rparr> 0 [] 32 =
     (True, replicate 32 0, 0, \<lparr>pending = [], script = []\<rparr>)"
  by (simp add: read_all.simps sys_read_def)

lemma mock_main:
  "main (mock_lib 1 d) (mock_env (replicate 32 0) []) [''clightning-dumpkeys'', ''hsm_secret''] =
     Some (finish (mock_lib 1 d) ''hsm_secret'' 0 (replicate 32 0) 1)"
  using main_finish [of "[''clightning-dumpkeys'', ''hsm_secret'']" "mock_env (replicate 32 0) []"
      "replicate 32 0" "replicate 32 0" 0 "\<lparr>pending = [], script = []\<rparr>" "mock_lib 1 d" 1]
    mock_read mock_first_accepted [of d]
  by (simp add: mock_env_def)

lemma mock_master:
  "master_key (mock_lib 1 d) (replicate 32 0) BIP32_VER_MAIN_PRIVATE 1 =
     (bip32 init_sys)\<lparr>version := BIP32_VER_MAIN_PRIVATE, priv_key := 7\<rparr>"
  by (simp add: master_key_def candidate_def mock_lib_def le_bytes_def upt_rec
      BIP32_ENTROPY_LEN_256_def)

lemma mock_exit:
  "fst (finish (mock_lib 1 2) path err (replicate 32 0) 1) = Exited 0"
  "fst (finish (mock_lib 1 1) path err (replicate 32 0) 1) = Exited 1"
  "fst (finish (mock_lib 1 0) path err (replicate 32 0) 1) = Exited 1"
  unfolding finish_def Let_def mock_master derive_def grandchild_def
  by (simp_all add: mock_lib_def init_sys_def)

text \<open>
  Claim C7. When the secret file holds fewer than 32 bytes, whatever the reads do, the
  process ends with exit code 1 and the message "reading: ..." on standard error, nothing
  is written to standard output, and its only call is the \<^verbatim>\<open>open\<close>: no seed whitening
  and no key derivation has run.
\<close>

theorem truncated_secret:
  assumes "length argv = 2" and "fs E (argv ! 1) = Inr contents" and "length contents < 32"
  shows "\<exists>s' err. main L E argv = Some (Exited 1, s') \<and>
           stdout s' = [] \<and>
           stderr s' = ''reading: '' @ strerror E err @ newline \<and>
           calls s' = [Call_open (argv ! 1)]"
proof -
  obtain ok st err fd where
    r: "read_all \<lparr>pending = contents, script = reads E\<rparr> 0 [] 32 = (ok, st, err, fd)"
    by (cases "read_all \<lparr>pending = contents, script = reads E\<rparr> 0 [] 32") auto
  from read_all_copies [OF r] assms(3) have "\<not> ok" by auto
  with r have "read_all \<lparr>pending = contents, script = reads E\<rparr> 0 [] 32 = (False, st, err, fd)"
    by simp
  from main_read_fails [OF assms(1,2) this, of L]
  obtain s' where "main L E argv = Some (Exited 1, s')" "stdout s' = []"
    "stderr s' = ''reading: '' @ strerror E err @ newline" "calls s' = [Call_open (argv ! 1)]"
    by (simp add: start_def init_sys_def)
  then show ?thesis by blast
qed

theorem truncated_secret_witness:
  "\<exists>s' err. main (mock_lib 0 2) (mock_env [1, 2, 3] [Fails EINTR, Delivers 2])
              [''clightning-dumpkeys'', ''hsm_secret''] = Some (Exited 1, s') \<and>
      stdout s' = [] \<and>
      stderr s' = ''reading: '' @ strerror (mock_env [1, 2, 3] [Fails EINTR, Delivers 2]) err @ newline \<and>
      calls s' = [Call_open ''hsm_secret'']"
  using truncated_secret [of "[''clightning-dumpkeys'', ''hsm_secret'']"
      "mock_env [1, 2, 3] [Fails EINTR, Delivers 2]" "[1, 2, 3]" "mock_lib 0 2"]
  by (simp add: mock_env_def)

text \<open>A failed child derivation in the calls of a run that ends is its last call.\<close>

lemma failed_derivation_last:
  assumes "main L E argv = Some (h, s')"
    and "Call_bip32_key_from_parent parent i f \<in> set (calls s')"
    and "fst (bip32_key_from_parent L parent i f) \<noteq> WALLY_OK"
  shows "h = Exited 1 \<and> stdout s' = [] \<and>
         (stderr s' = ''Can't derive child bip32 key'' \<or>
          stderr s' = ''Can't derive private bip32 key'') \<and>
         last (calls s') = Call_bip32_key_from_parent parent i f \<and>
         i = 0 \<and> f = BIP32_FLAG_KEY_PRIVATE \<and>
         length (filter is_child_derivation (calls s')) \<le> 2"
  using assms(1)
proof (cases rule: main_cases)
  case usage
  with assms(2) show ?thesis by (simp add: usage_def init_sys_def)
next
  case (open_fails e)
  with assms(2) show ?thesis by (simp add: start_def init_sys_def)
next
  case (read_fails contents st err fd)
  with assms(2) show ?thesis by (simp add: start_def init_sys_def)
next
  case (finish contents st err fd n)
  let ?m = "master_key L (take 32 contents) BIP32_VER_MAIN_PRIVATE n"
  let ?c = "Call_bip32_key_from_parent parent i f"
  have nw: "?c \<notin> set (whitening L (take 32 contents) BIP32_VER_MAIN_PRIVATE n)"
  proof
    assume "?c \<in> set (whitening L (take 32 contents) BIP32_VER_MAIN_PRIVATE n)"
    then have "?c \<in> set (filter is_child_derivation
        (whitening L (take 32 contents) BIP32_VER_MAIN_PRIVATE n))"
      by simp
    then show False
      by (simp add: whitening_no_derivation)
  qed
  have fd: "fst (derive L k) \<noteq> WALLY_OK" if "?c = derive_call k" for k
    using assms(3) that by (auto simp: derive_call_def derive_def)
  consider (d1) "fst (derive L ?m) \<noteq> WALLY_OK"
    | (d2) "fst (derive L ?m) = WALLY_OK" "fst (derive L (snd (derive L ?m))) \<noteq> WALLY_OK"
    | (ab) "fst (derive L ?m) = WALLY_OK" "fst (derive L (snd (derive L ?m))) = WALLY_OK"
        "\<not> key_is_valid L (rerooted (grandchild L ?m))"
    | (ok) "fst (derive L ?m) = WALLY_OK" "fst (derive L (snd (derive L ?m))) = WALLY_OK"
        "key_is_valid L (rerooted (grandchild L ?m))"
    by blast
  then show ?thesis
  proof cases
    case d1
    with finish(5) have hs: "h = Exited 1" "stdout s' = []"
      "stderr s' = ''Can't derive child bip32 key''"
      "calls s' = Call_open (argv ! 1) #
          whitening L (take 32 contents) BIP32_VER_MAIN_PRIVATE n @ [derive_call ?m]"
      by (simp_all add: finish_def Let_def whitened_simps)
    with assms(2) nw have "?c = derive_call ?m" by auto
    with hs show ?thesis
      by (simp add: whitening_no_derivation derive_call_def)
  next
    case d2
    with finish(5) have hs: "h = Exited 1" "stdout s' = []"
      "stderr s' = ''Can't derive private bip32 key''"
      "calls s' = Call_open (argv ! 1) #
          whitening L (take 32 contents) BIP32_VER_MAIN_PRIVATE n @
          [derive_call ?m, derive_call (snd (derive L ?m))]"
      by (simp_all add: finish_def Let_def whitened_simps)
    with assms(2) nw have "?c = derive_call ?m \<or> ?c = derive_call (snd (derive L ?m))" by auto
    with fd [of ?m] d2(1) have "?c = derive_call (snd (derive L ?m))" by auto
    with hs show ?thesis
      by (simp add: whitening_no_derivation derive_call_def)
  next
    case ab
    with finish(5) have
      "calls s' = Call_open (argv ! 1) #
          whitening L (take 32 contents) BIP32_VER_MAIN_PRIVATE n @
          [derive_call ?m, derive_call (snd (derive L ?m)),
           serialize_call (rerooted (grandchild L ?m))]"
      by (simp_all add: finish_def Let_def whitened_simps)
    with assms(2) nw have "?c = derive_call ?m \<or> ?c = derive_call (snd (derive L ?m))"
      by (auto simp: serialize_call_def)
    with fd [of ?m] fd [of "snd (derive L ?m)"] ab(1,2) show ?thesis by auto
  next
    case ok
    with finish(5) have
      "calls s' = Call_open (argv ! 1) #
          whitening L (take 32 contents) BIP32_VER_MAIN_PRIVATE n @
          [derive_call ?m, derive_call (snd (derive L ?m)),
           serialize_call (rerooted (grandchild L ?m))]"
      by (simp_all add: finish_def Let_def whitened_simps)
    with assms(2) nw have "?c = derive_call ?m \<or> ?c = derive_call (snd (derive L ?m))"
      by (auto simp: serialize_call_def)
    with fd [of ?m] fd [of "snd (derive L ?m)"] ok(1,2) show ?thesis by auto
  qed
qed

section \<open>Determinism, trailing bytes and the missing argument\<close>

lemma finish_independent:
  "fst (finish L path err secret n) = fst (finish L path' err' secret n)"
  "stdout (snd (finish L path err secret n)) = stdout (snd (finish L path' err' secret n))"
  by (simp_all add: finish_def Let_def whitened_simps)

text \<open>
  Claim C4. Two runs with the same library whose secret files have the same contents, and
  which both read the secret, end the same way and write the same bytes to standard
  output, whatever the file's name, the program's name and the way the reads are split
  or interrupted.
\<close>

theorem deterministic_output:
  assumes "main L E1 argv1 = Some (h1, s1)" and "main L E2 argv2 = Some (h2, s2)"
    and "length argv1 = 2" and "length argv2 = 2"
    and "fs E1 (argv1 ! 1) = Inr contents" and "fs E2 (argv2 ! 1) = Inr contents"
    and "\<not> cannot_read E1 argv1" and "\<not> cannot_read E2 argv2"
  shows "stdout s1 = stdout s2 \<and> h1 = h2"
proof -
  have r1: "fst (read_all \<lparr>pending = contents, script = reads E1\<rparr> 0 [] 32)"
    using assms(5,7) by (simp add: cannot_read_def)
  have r2: "fst (read_all \<lparr>pending = contents, script = reads E2\<rparr> 0 [] 32)"
    using assms(6,8) by (simp add: cannot_read_def)
  from assms(1) obtain err1 n1 where
    f1: "first_accepted L (take 32 contents) BIP32_VER_MAIN_PRIVATE n1"
      "(h1, s1) = finish L (argv1 ! 1) err1 (take 32 contents) n1"
    using assms(3,5) r1 by (cases rule: main_cases) auto
  from assms(2) obtain err2 n2 where
    f2: "first_accepted L (take 32 contents) BIP32_VER_MAIN_PRIVATE n2"
      "(h2, s2) = finish L (argv2 ! 1) err2 (take 32 contents) n2"
    using assms(4,6) r2 by (cases rule: main_cases) auto
  have "n1 = n2"
    using f1(1) f2(1) by (rule first_accepted_unique)
  with f1(2) f2(2) finish_independent [of L "argv1 ! 1" err1 "take 32 contents" n1 "argv2 ! 1" err2]
  show ?thesis
    by (metis fst_conv snd_conv)
qed

lemma take_take_le: "k \<le> n \<Longrightarrow> take k (take n xs) = take k xs"
  by (simp add: min_def)

lemma drop_take_length:
  "drop (length (take k xs)) (take n xs) = take (n - length (take k xs)) (drop (length (take k xs)) xs)"
  by (simp add: drop_take)

lemma sys_read_truncate:
  assumes "sz \<le> n"
  shows "sys_read (fd\<lparr>pending := take n (pending fd)\<rparr>) sz err =
     (case sys_read fd sz err of
        (dn, e, bs, fd') \<Rightarrow> (dn, e, bs, fd'\<lparr>pending := take (n - length bs) (pending fd')\<rparr>))"
proof (cases "script fd")
  case Nil
  have "take sz (take n (pending fd)) = take sz (pending fd)"
    using assms by (rule take_take_le)
  with Nil show ?thesis
    by (simp add: sys_read_def Let_def drop_take_length del: length_take)
next
  case (Cons ev rest)
  show ?thesis
  proof (cases ev)
    case (Fails e)
    with Cons show ?thesis
      by (simp add: sys_read_def)
  next
    case (Delivers k)
    have "min (max k 1) sz \<le> n"
      using assms by simp
    then have "take (min (max k 1) sz) (take n (pending fd)) = take (min (max k 1) sz) (pending fd)"
      by (rule take_take_le)
    with Cons Delivers show ?thesis
      by (simp add: sys_read_def Let_def drop_take_length del: length_take)
  qed
qed

lemma read_all_truncate:
  "sz \<le> n \<Longrightarrow>
   outcome (read_all (fd\<lparr>pending := take n (pending fd)\<rparr>) err stored sz) =
   outcome (read_all fd err stored sz)"
proof (induction fd err stored sz arbitrary: n rule: read_all.induct)
  case (1 fd err stored sz)
  show ?case
  proof (cases "sz = 0")
    case True
    then show ?thesis by (simp add: read_all_zero outcome_def)
  next
    case False
    obtain dn e1 bs fd1 where r: "sys_read fd sz err = (dn, e1, bs, fd1)"
      by (cases "sys_read fd sz err") auto
    let ?fd1 = "fd1\<lparr>pending := take (n - length bs) (pending fd1)\<rparr>"
    have rt: "sys_read (fd\<lparr>pending := take n (pending fd)\<rparr>) sz err = (dn, e1, bs, ?fd1)"
      using sys_read_truncate [OF "1.prems", of fd err] r by simp
    consider (intr) "dn < 0" "e1 = EINTR" | (fail) "dn \<le> 0" "\<not> (dn < 0 \<and> e1 = EINTR)"
      | (more) "0 < dn"
      by fastforce
    then show ?thesis
    proof cases
      case intr
      then have c: "dn < 0 \<and> e1 = EINTR" by simp
      have "bs = []"
        using sys_read_error [OF r] intr by simp
      then have "?fd1 = fd1\<lparr>pending := take n (pending fd1)\<rparr>" by simp
      with "1.IH"(1) [OF False r [symmetric] refl refl c "1.prems"] intr False r rt
      show ?thesis
        by (simp add: read_all_intr [of sz _ err dn bs])
    next
      case fail
      with False r rt show ?thesis
        by (simp add: read_all_fail [of sz _ err dn e1 bs] outcome_def)
    next
      case more
      then have c1: "\<not> (dn < 0 \<and> e1 = EINTR)" and c2: "\<not> dn \<le> 0" by simp_all
      from sys_read_count [OF r] more have c: "dn = int (length bs)" "length bs \<le> sz"
        by auto
      with "1.prems" have "sz - nat dn \<le> n - length bs" by simp
      from "1.IH"(2) [OF False r [symmetric] refl refl c1 c2 this] more False r rt
      show ?thesis
        by (simp add: read_all_more [of sz _ err dn e1 bs])
    qed
  qed
qed

lemma mock_main_benign:
  assumes "list_all benign evs" and "take 32 contents = replicate 32 0" and "32 \<le> length contents"
  shows "\<exists>err. main (mock_lib 1 d) (mock_env contents evs) [name, ''hsm_secret''] =
           Some (finish (mock_lib 1 d) ''hsm_secret'' err (replicate 32 0) 1)"
proof -
  let ?fd = "\<lparr>pending = contents, script = evs\<rparr>"
  obtain ok st err fd where r: "read_all ?fd 0 [] 32 = (ok, st, err, fd)"
    by (cases "read_all ?fd 0 [] 32") auto
  from read_all_benign [of ?fd 32 0 "[]"] assms(1,3) r have "ok" by simp
  with r have r': "read_all \<lparr>pending = contents, script = reads (mock_env contents evs)\<rparr> 0 [] 32 =
      (True, st, err, fd)"
    by (simp add: mock_env_def)
  have fa: "first_accepted (mock_lib 1 d) (take 32 contents) BIP32_VER_MAIN_PRIVATE 1"
    using mock_first_accepted [of d] assms(2) by simp
  from main_finish [of "[name, ''hsm_secret'']" "mock_env contents evs" contents st err fd
      "mock_lib 1 d" 1, OF _ _ r' fa] assms(2)
  show ?thesis
    by (auto simp: mock_env_def)
qed

theorem deterministic_output_witness:
  "stdout (snd (the (main (mock_lib 1 2) (mock_env (replicate 32 0) [])
      [''clightning-dumpkeys'', ''hsm_secret'']))) =
   stdout (snd (the (main (mock_lib 1 2) (mock_env (replicate 32 0) [Fails EINTR, Delivers 5])
      [''dumpkeys'', ''hsm_secret''])))"
proof -
  let ?E1 = "mock_env (replicate 32 0) []"
  let ?E2 = "mock_env (replicate 32 0) [Fails EINTR, Delivers 5]"
  let ?a1 = "[''clightning-dumpkeys'', ''hsm_secret'']"
  let ?a2 = "[''dumpkeys'', ''hsm_secret'']"
  have "\<exists>err. main (mock_lib 1 2) ?E1 ?a1 =
      Some (finish (mock_lib 1 2) ''hsm_secret'' err (replicate 32 0) 1)"
    by (rule mock_main_benign) simp_all
  then obtain h1 s1 where m1: "main (mock_lib 1 2) ?E1 ?a1 = Some (h1, s1)"
    by (metis surj_pair)
  have "\<exists>err. main (mock_lib 1 2) ?E2 ?a2 =
      Some (finish (mock_lib 1 2) ''hsm_secret'' err (replicate 32 0) 1)"
    by (rule mock_main_benign) simp_all
  then obtain h2 s2 where m2: "main (mock_lib 1 2) ?E2 ?a2 = Some (h2, s2)"
    by (metis surj_pair)
  have r1: "\<not> cannot_read ?E1 ?a1"
    using read_all_benign [of "\<lparr>pending = replicate 32 0, script = []\<rparr>" 32 0 "[]"]
    by (simp add: cannot_read_def mock_env_def)
  have r2: "\<not> cannot_read ?E2 ?a2"
    using read_all_benign [of "\<lparr>pending = replicate 32 0, script = [Fails EINTR, Delivers 5]\<rparr>" 32 0 "[]"]
    by (simp add: cannot_read_def mock_env_def)
  have "fs ?E1 (?a1 ! 1) = Inr (replicate 32 0)" "fs ?E2 (?a2 ! 1) = Inr (replicate 32 0)"
    by (simp_all add: mock_env_def)
  from deterministic_output [OF m1 m2 _ _ this r1 r2] m1 m2 show ?thesis
    by simp
qed

text \<open>
  Claim C10. When the secret file holds more than 32 bytes (at least 32), the run is the
  run on the file cut to its first 32 bytes: the same end, output and calls. When no
  read fails other than with \<^verbatim>\<open>EINTR\<close>, \<^verbatim>\<open>read_all\<close> succeeds with exactly the first 32
  bytes as the secret, the rest of the file is left unread, and the run goes on to the
  derivation with that secret.
\<close>

theorem trailing_bytes_ignored:
  assumes "length argv = 2" and "fs E (argv ! 1) = Inr contents" and "32 \<le> length contents"
  shows "main L E argv = main L (E\<lparr>fs := (fs E)(argv ! 1 := Inr (take 32 contents))\<rparr>) argv \<and>
         (list_all benign (reads E) \<longrightarrow>
            (\<exists>err fd. read_all \<lparr>pending = contents, script = reads E\<rparr> 0 [] 32 =
                        (True, take 32 contents, err, fd) \<and>
                      pending fd = drop 32 contents \<and>
                      (\<forall>n. first_accepted L (take 32 contents) BIP32_VER_MAIN_PRIVATE n \<longrightarrow>
                         main L E argv = Some (finish L (argv ! 1) err (take 32 contents) n))))"
proof
  let ?E = "E\<lparr>fs := (fs E)(argv ! 1 := Inr (take 32 contents))\<rparr>"
  have o: "outcome (read_all \<lparr>pending = take 32 contents, script = reads E\<rparr> 0 [] 32) =
      outcome (read_all \<lparr>pending = contents, script = reads E\<rparr> 0 [] 32)"
    using read_all_truncate [of 32 32 "\<lparr>pending = contents, script = reads E\<rparr>" 0 "[]"]
    by simp
  obtain ok st err fd where
    r: "read_all \<lparr>pending = contents, script = reads E\<rparr> 0 [] 32 = (ok, st, err, fd)"
    by (cases "read_all \<lparr>pending = contents, script = reads E\<rparr> 0 [] 32") auto
  obtain fd' where
    r': "read_all \<lparr>pending = take 32 contents, script = reads E\<rparr> 0 [] 32 = (ok, st, err, fd')"
    using o r by (cases "read_all \<lparr>pending = take 32 contents, script = reads E\<rparr> 0 [] 32")
      (auto simp: outcome_def)
  show "main L E argv = main L ?E argv"
    using assms(1,2) r r' by (simp add: main_def dump_xpriv_eq)
  show "list_all benign (reads E) \<longrightarrow>
            (\<exists>err fd. read_all \<lparr>pending = contents, script = reads E\<rparr> 0 [] 32 =
                        (True, take 32 contents, err, fd) \<and>
                      pending fd = drop 32 contents \<and>
                      (\<forall>n. first_accepted L (take 32 contents) BIP32_VER_MAIN_PRIVATE n \<longrightarrow>
                         main L E argv = Some (finish L (argv ! 1) err (take 32 contents) n)))"
  proof
    assume "list_all benign (reads E)"
    with read_all_benign [of "\<lparr>pending = contents, script = reads E\<rparr>" 32 0 "[]"] assms(3) r
    have ok by simp
    with r have rt: "read_all \<lparr>pending = contents, script = reads E\<rparr> 0 [] 32 = (True, st, err, fd)"
      by simp
    from read_all_copies [OF rt] have st: "st = take 32 contents" "pending fd = drop 32 contents"
      by auto
    have "\<forall>n. first_accepted L (take 32 contents) BIP32_VER_MAIN_PRIVATE n \<longrightarrow>
        main L E argv = Some (finish L (argv ! 1) err (take 32 contents) n)"
      using main_finish [OF assms(1,2) rt] by blast
    with rt st show "\<exists>err fd. read_all \<lparr>pending = contents, script = reads E\<rparr> 0 [] 32 =
                        (True, take 32 contents, err, fd) \<and>
                      pending fd = drop 32 contents \<and>
                      (\<forall>n. first_accepted L (take 32 contents) BIP32_VER_MAIN_PRIVATE n \<longrightarrow>
                         main L E argv = Some (finish L (argv ! 1) err (take 32 contents) n))"
      by blast
  qed
qed

theorem trailing_bytes_ignored_witness:
  "main (mock_lib 1 2) (mock_env (replicate 32 0 @ [1, 2, 3]) [Delivers 10])
     [''clightning-dumpkeys'', ''hsm_secret''] =
   main (mock_lib 1 2) (mock_env (replicate 32 0) [Delivers 10])
     [''clightning-dumpkeys'', ''hsm_secret''] \<and>
   fst (the (main (mock_lib 1 2) (mock_env (replicate 32 0 @ [1, 2, 3]) [Delivers 10])
     [''clightning-dumpkeys'', ''hsm_secret''])) = Exited 0"
proof -
  let ?E = "mock_env (replicate 32 0 @ [1, 2, 3]) [Delivers 10]"
  let ?argv = "[''clightning-dumpkeys'', ''hsm_secret'']"
  have e: "?E\<lparr>fs := (fs ?E)(?argv ! 1 := Inr (take 32 (replicate 32 0 @ [1, 2, 3])))\<rparr> =
      mock_env (replicate 32 0) [Delivers 10]"
    by (auto simp: mock_env_def)
  have a: "length ?argv = 2" "fs ?E (?argv ! 1) = Inr (replicate 32 0 @ [1, 2, 3])"
    "32 \<le> length (replicate 32 0 @ [1, 2, 3 :: u8])" "list_all benign (reads ?E)"
    by (simp_all add: mock_env_def)
  have fa: "first_accepted (mock_lib 1 2) (take 32 (replicate 32 0 @ [1, 2, 3])) BIP32_VER_MAIN_PRIVATE 1"
    using mock_first_accepted [of 2] by simp
  from trailing_bytes_ignored [OF a(1-3), of "mock_lib 1 2"] a(4) fa
  obtain err where "main (mock_lib 1 2) ?E ?argv =
      main (mock_lib 1 2) (?E\<lparr>fs := (fs ?E)(?argv ! 1 := Inr (take 32 (replicate 32 0 @ [1, 2, 3])))\<rparr>) ?argv"
    "main (mock_lib 1 2) ?E ?argv =
      Some (finish (mock_lib 1 2) (?argv ! 1) err (take 32 (replicate 32 0 @ [1, 2, 3])) 1)"
    by blast
  then show ?thesis
    unfolding e using mock_exit(1) [of "?argv ! 1" err] by simp
qed

text \<open>
  Claim C6 as stated fails: in an environment where the file \<^verbatim>\<open>hsm_secret\<close> exists and
  holds a 32-byte secret, the run without a path argument ends in \<^verbatim>\<open>usage\<close> with exit
  code 42, without any call and with nothing on standard output.
\<close>

theorem default_filename_counterexample:
  "main (mock_lib 1 2) (mock_env (replicate 32 0) []) [''clightning-dumpkeys''] =
     Some (usage init_sys) \<and>
   fst (usage init_sys) = Exited 42 \<and>
   calls (snd (usage init_sys)) = [] \<and>
   stdout (snd (usage init_sys)) = [] \<and>
   fs (mock_env (replicate 32 0) []) ''hsm_secret'' = Inr (replicate 32 0)"
  by (simp add: main_def usage_def init_sys_def mock_env_def)

lemma finish_first_call:
  "hd (calls (snd (finish L path err secret n))) = Call_open path"
  by (simp add: finish_def Let_def whitened_simps)

text \<open>
  Claim C6, amended. When \<^verbatim>\<open>argc\<close> is not 2, in particular when the path argument is
  omitted, the program prints the usage line to standard error and exits with code 42; no
  file is opened. With one argument, the first call of the process opens that path. The
  default filename \<^verbatim>\<open>hsm_secret\<close> is what \<^verbatim>\<open>load_hsm\<close> opens when it is passed the null
  pointer, which \<^verbatim>\<open>main\<close> never passes.
\<close>

theorem usage_without_path:
  "(length argv \<noteq> 2 \<longrightarrow>
      main L E argv =
        Some (Exited 42,
              init_sys\<lparr>stderr := ''usage: clightning-dumpkeys <hsmd_secretfile>'' @ newline\<rparr>)) \<and>
   (\<forall>h s'. length argv = 2 \<and> main L E argv = Some (h, s') \<longrightarrow>
      hd (calls s') = Call_open (argv ! 1)) \<and>
   load_hsm L E None s0 = load_hsm L E (Some ''hsm_secret'') s0"
proof (intro conjI allI impI)
  assume "length argv \<noteq> 2"
  then show "main L E argv =
      Some (Exited 42,
            init_sys\<lparr>stderr := ''usage: clightning-dumpkeys <hsmd_secretfile>'' @ newline\<rparr>)"
    by (simp add: main_def usage_def init_sys_def)
next
  fix h s'
  assume a: "length argv = 2 \<and> main L E argv = Some (h, s')"
  then have "main L E argv = Some (h, s')" by simp
  then show "hd (calls s') = Call_open (argv ! 1)"
  proof (cases rule: main_cases)
    case usage
    with a show ?thesis by simp
  next
    case (open_fails e)
    then show ?thesis by (simp add: start_def)
  next
    case (read_fails contents st err fd)
    then show ?thesis by (simp add: start_def)
  next
    case (finish contents st err fd n)
    then show ?thesis
      using finish_first_call [of L "argv ! 1" err "take 32 contents" n] by (metis snd_conv)
  qed
next
  show "load_hsm L E None s0 = load_hsm L E (Some ''hsm_secret'') s0"
    by (simp add: load_hsm_def)
qed

theorem usage_without_path_witness:
  "main (mock_lib 1 2) (mock_env (replicate 32 0) []) [''clightning-dumpkeys''] =
     Some (Exited 42,
           init_sys\<lparr>stderr := ''usage: clightning-dumpkeys <hsmd_secretfile>'' @ newline\<rparr>) \<and>
   hd (calls (snd (the (main (mock_lib 1 2) (mock_env (replicate 32 0) [])
      [''clightning-dumpkeys'', ''hsm_secret''])))) = Call_open ''hsm_secret''"
proof -
  let ?E = "mock_env (replicate 32 0) []"
  obtain h s' where "finish (mock_lib 1 2) ''hsm_secret'' 0 (replicate 32 0) 1 = (h, s')"
    by (cases "finish (mock_lib 1 2) ''hsm_secret'' 0 (replicate 32 0) 1") auto
  then have m: "main (mock_lib 1 2) ?E [''clightning-dumpkeys'', ''hsm_secret''] = Some (h, s')"
    using mock_main [of 2] by simp
  from usage_without_path [of "[''clightning-dumpkeys'']" "mock_lib 1 2" ?E]
    usage_without_path [of "[''clightning-dumpkeys'', ''hsm_secret'']" "mock_lib 1 2" ?E] m
  show ?thesis
    by simp
qed

section \<open>Base58Check and the printed key\<close>

lemma to_base_zero: "to_base b 0 = []"
  by (simp add: to_base.simps)

lemma to_base_step:
  "2 \<le> b \<Longrightarrow> n \<noteq> 0 \<Longrightarrow> to_base b n = to_base b (n div b) @ [n mod b]"
  by (subst to_base.simps) simp

lemma to_base_empty: "2 \<le> b \<Longrightarrow> to_base b n = [] \<longleftrightarrow> n = 0"
  by (cases "n = 0") (simp_all add: to_base_zero to_base_step)

lemma of_base_snoc: "of_base b (ds @ [d]) = b * of_base b ds + d"
  by (simp add: of_base_def)

lemma of_base_to_base: "2 \<le> b \<Longrightarrow> of_base b (to_base b n) = n"
proof (induction b n rule: to_base.induct)
  case (1 b n)
  show ?case
  proof (cases "n = 0")
    case True
    then show ?thesis by (simp add: to_base_zero of_base_def)
  next
    case False
    with "1.prems" have "\<not> (b < 2 \<or> n = 0)" by simp
    from "1.IH" [OF this "1.prems"] False "1.prems" show ?thesis
      by (simp add: to_base_step of_base_snoc)
  qed
qed

lemma to_base_less: "2 \<le> b \<Longrightarrow> d \<in> set (to_base b n) \<Longrightarrow> d < b"
proof (induction b n rule: to_base.induct)
  case (1 b n)
  show ?case
  proof (cases "n = 0")
    case True
    with "1.prems" show ?thesis by (simp add: to_base_zero)
  next
    case False
    with "1.prems" have c: "\<not> (b < 2 \<or> n = 0)" by simp
    from "1.prems"(2) False "1.prems"(1)
    have "d \<in> set (to_base b (n div b)) \<or> d = n mod b"
      by (auto simp: to_base_step)
    then show ?thesis
    proof
      assume "d \<in> set (to_base b (n div b))"
      with "1.IH" [OF c "1.prems"(1)] show ?thesis .
    next
      assume "d = n mod b"
      with "1.prems"(1) show ?thesis by simp
    qed
  qed
qed

lemma to_base_hd: "2 \<le> b \<Longrightarrow> to_base b n \<noteq> [] \<Longrightarrow> hd (to_base b n) \<noteq> 0"
proof (induction b n rule: to_base.induct)
  case (1 b n)
  have n: "n \<noteq> 0"
  proof
    assume "n = 0"
    with "1.prems"(2) show False by (simp add: to_base_zero)
  qed
  with "1.prems" have c: "\<not> (b < 2 \<or> n = 0)" by simp
  show ?case
  proof (cases "n div b = 0")
    case True
    with n "1.prems"(1) have "to_base b n = [n mod b]" "n mod b = n"
      by (simp_all add: to_base_step to_base_zero div_eq_0_iff)
    with n show ?thesis by simp
  next
    case False
    with "1.prems"(1) have ne: "to_base b (n div b) \<noteq> []"
      by (simp add: to_base_empty)
    from "1.IH" [OF c "1.prems"(1) ne] ne n "1.prems"(1) show ?thesis
      by (simp add: to_base_step)
  qed
qed

lemma of_base_zeros: "of_base b (replicate z 0 @ ds) = of_base b ds"
  by (induction z) (simp_all add: of_base_def)

lemma nat_of_bytes_snoc: "nat_of_bytes (bs @ [x]) = 256 * nat_of_bytes bs + unat x"
  by (simp add: nat_of_bytes_def)

lemma to_base_bytes:
  "to_base 256 (nat_of_bytes bs) = map unat (dropWhile (\<lambda>b. b = 0) bs)"
proof (induction bs rule: rev_induct)
  case Nil
  show ?case by (simp add: nat_of_bytes_def to_base_zero)
next
  case (snoc x xs)
  let ?n = "256 * nat_of_bytes xs + unat x"
  have ux: "unat x < 256"
    using unsigned_less [of x] by simp
  show ?case
  proof (cases "?n = 0")
    case True
    then have z: "nat_of_bytes xs = 0" "x = 0"
      by (simp_all add: unat_eq_0)
    with snoc.IH have "dropWhile (\<lambda>b. b = 0) xs = []"
      by (simp add: to_base_zero)
    then have "\<forall>b\<in>set xs. b = 0"
      by (simp add: dropWhile_eq_Nil_conv)
    with z True show ?thesis
      by (simp add: nat_of_bytes_snoc to_base_zero dropWhile_append)
  next
    case False
    have dm: "?n div 256 = nat_of_bytes xs" "?n mod 256 = unat x"
      using ux by (simp_all add: mod_less)
    have step: "to_base 256 ?n = to_base 256 (nat_of_bytes xs) @ [unat x]"
      using to_base_step [of 256 ?n] False by (simp only: dm) simp
    show ?thesis
    proof (cases "\<forall>b\<in>set xs. b = 0")
      case True
      then have d: "dropWhile (\<lambda>b. b = 0) xs = []"
        by (simp add: dropWhile_eq_Nil_conv)
      with snoc.IH have "nat_of_bytes xs = 0"
        by (simp add: to_base_empty)
      with False have "x \<noteq> 0"
        by (auto simp: unat_eq_0)
      with True d step snoc.IH show ?thesis
        by (simp add: nat_of_bytes_snoc dropWhile_append)
    next
      case False
      then have "dropWhile (\<lambda>b. b = 0) (xs @ [x]) = dropWhile (\<lambda>b. b = 0) xs @ [x]"
        by (auto simp: dropWhile_append)
      with step snoc.IH show ?thesis
        by (simp add: nat_of_bytes_snoc)
    qed
  qed
qed

lemma position_nth:
  "distinct xs \<Longrightarrow> i < length xs \<Longrightarrow> position (xs ! i) xs = Some i"
proof (induction xs arbitrary: i)
  case Nil
  then show ?case by simp
next
  case (Cons x xs)
  show ?case
  proof (cases i)
    case 0
    then show ?thesis by simp
  next
    case (Suc j)
    with Cons.prems have "xs ! j \<in> set xs" "x \<notin> set xs" by simp_all
    then have "xs ! j \<noteq> x" by auto
    with Suc Cons show ?thesis by simp
  qed
qed

lemma b58_alphabet_distinct: "distinct b58_alphabet"
  by (simp add: b58_alphabet_def)

lemma b58_alphabet_length: "length b58_alphabet = 58"
  by (simp add: b58_alphabet_def)

lemma b58_no_newline: "CHR 0x0A \<notin> set b58_alphabet"
  by (simp add: b58_alphabet_def)

lemma b58_position: "d < 58 \<Longrightarrow> position (b58_alphabet ! d) b58_alphabet = Some d"
  by (simp add: position_nth b58_alphabet_distinct b58_alphabet_length)

lemma b58_one: "b58_alphabet ! 0 = CHR ''1''"
  by (simp add: b58_alphabet_def)

lemma b58_digit_one: "d < 58 \<Longrightarrow> b58_alphabet ! d = CHR ''1'' \<longleftrightarrow> d = 0"
  using nth_eq_iff_index_eq [OF b58_alphabet_distinct, of d 0]
  by (simp add: b58_alphabet_length b58_one)

lemma takeWhile_zeros:
  "takeWhile (\<lambda>b. b = 0) bs = replicate (length (takeWhile (\<lambda>b. b = 0) bs)) (0 :: u8)"
proof -
  have "\<forall>b\<in>set (takeWhile (\<lambda>b. b = 0) bs). b = 0"
    by (auto dest: set_takeWhileD)
  then show ?thesis
    by (metis replicate_length_same)
qed

lemma base58_vector_zeros: "base58_encode [0x00, 0x00, 0x28, 0x7f, 0xb4, 0xcd] = ''11233QC4''"
  by (simp add: base58_encode_def nat_of_bytes_def to_base.simps b58_alphabet_def)

lemma base58_vector_hello:
  "base58_encode [72, 101, 108, 108, 111, 32, 87, 111, 114, 108, 100, 33] = ''2NEpo7TZRRrLZSi2U''"
  by (simp add: base58_encode_def nat_of_bytes_def to_base.simps b58_alphabet_def)

lemma base58_vector_decode: "base58_decode ''11233QC4'' = Some [0x00, 0x00, 0x28, 0x7f, 0xb4, 0xcd]"
  by (simp add: base58_decode_def of_base_def to_base.simps b58_alphabet_def)

lemma base58_roundtrip: "base58_decode (base58_encode bs) = Some bs"
proof -
  define z where "z = length (takeWhile (\<lambda>b. b = 0) bs)"
  define ds where "ds = to_base 58 (nat_of_bytes bs)"
  define str where "str = map (\<lambda>d. b58_alphabet ! d) ds"
  have enc: "base58_encode bs = replicate z (CHR ''1'') @ str"
    by (simp add: base58_encode_def z_def ds_def str_def)
  have less: "d < 58" if "d \<in> set ds" for d
    using that to_base_less [of 58 d "nat_of_bytes bs"] by (simp add: ds_def)
  have idx: "map (\<lambda>c. the (position c b58_alphabet)) str = ds"
    unfolding str_def by (simp add: map_idI b58_position less comp_def)
  have all: "list_all (\<lambda>c. position c b58_alphabet \<noteq> None) (replicate z (CHR ''1'') @ str)"
  proof -
    have "position (CHR ''1'') b58_alphabet \<noteq> None"
      using b58_position [of 0] by (simp add: b58_one)
    moreover have "\<forall>c\<in>set str. position c b58_alphabet \<noteq> None"
      unfolding str_def using less by (auto simp: b58_position)
    ultimately show ?thesis
      by (auto simp: list_all_iff)
  qed
  have ones: "takeWhile (\<lambda>c. c = CHR ''1'') (replicate z (CHR ''1'') @ str) = replicate z (CHR ''1'')"
  proof (cases ds)
    case Nil
    then show ?thesis by (simp add: str_def takeWhile_append)
  next
    case (Cons d ds')
    then have "hd ds \<noteq> 0"
      using to_base_hd [of 58 "nat_of_bytes bs"] by (simp add: ds_def)
    with Cons less [of d] have "b58_alphabet ! d \<noteq> CHR ''1''"
      by (simp add: b58_digit_one)
    with Cons show ?thesis
      by (simp add: str_def takeWhile_append)
  qed
  have pos1: "the (position (CHR ''1'') b58_alphabet) = 0"
    using b58_position [of 0] by (simp add: b58_one)
  have num: "of_base 58 (map (\<lambda>c. the (position c b58_alphabet)) (replicate z (CHR ''1'') @ str)) =
      nat_of_bytes bs"
    using of_base_zeros [of 58 z ds] of_base_to_base [of 58 "nat_of_bytes bs"]
    by (simp add: idx pos1 ds_def)
  have bytes: "map of_nat (to_base 256 (nat_of_bytes bs)) = dropWhile (\<lambda>b. b = 0) bs"
    by (simp add: to_base_bytes comp_def)
  have "replicate z 0 @ dropWhile (\<lambda>b. b = 0) bs = bs"
    using takeWhile_zeros [of bs] takeWhile_dropWhile_id [of "\<lambda>b. b = 0" bs]
    by (simp add: z_def)
  with all ones num bytes show ?thesis
    unfolding enc base58_decode_def by simp
qed

lemma base58_encode_chars: "set (base58_encode bs) \<subseteq> set b58_alphabet"
proof -
  have "b58_alphabet ! d \<in> set b58_alphabet" if "d \<in> set (to_base 58 (nat_of_bytes bs))" for d
    using that to_base_less [of 58 d "nat_of_bytes bs"] by (simp add: b58_alphabet_length)
  moreover have "CHR ''1'' \<in> set b58_alphabet"
    by (simp add: b58_alphabet_def)
  ultimately show ?thesis
    by (auto simp: base58_encode_def)
qed

lemma length_be_bytes: "length (be_bytes n w) = n"
  by (simp add: be_bytes_def)

lemma be_bytes_version: "be_bytes 4 BIP32_VER_MAIN_PRIVATE = [0x04, 0x88, 0xAD, 0xE4]"
  by (simp add: be_bytes_def BIP32_VER_MAIN_PRIVATE_def upt_rec)

lemma be_bytes_zero: "take 4 (be_bytes 20 (0 :: 160 word)) = [0, 0, 0, 0]"
  by (simp add: be_bytes_def upt_rec)

lemma payload_length: "length (payload k) = 78"
  by (simp add: payload_def length_be_bytes)

lemma payload_rerooted:
  "take 4 (payload (rerooted k)) = [0x04, 0x88, 0xAD, 0xE4]"
  "payload (rerooted k) ! 4 = 0"
  "take 4 (drop 5 (payload (rerooted k))) = [0, 0, 0, 0]"
proof -
  have p: "payload (rerooted k) =
      [0x04, 0x88, 0xAD, 0xE4] @ [0] @ [0, 0, 0, 0] @
      (be_bytes 4 (child_num k) @ be_bytes 32 (chain_code k) @ 0 # be_bytes 32 (priv_key k))"
    by (simp add: payload_def rerooted_def be_bytes_version be_bytes_zero)
  show "take 4 (payload (rerooted k)) = [0x04, 0x88, 0xAD, 0xE4]"
    "payload (rerooted k) ! 4 = 0"
    "take 4 (drop 5 (payload (rerooted k))) = [0, 0, 0, 0]"
    unfolding p by simp_all
qed

lemma xpriv_line_eq:
  assumes "key_is_valid L (rerooted k)"
  shows "xpriv_line L k =
    base58_encode (payload (rerooted k) @ base58_checksum L (payload (rerooted k)))"
  using assms payload_length [of "rerooted k"]
  by (simp add: xpriv_line_def bip32_key_serialize_def wally_base58_from_bytes_def payload_def
      BIP32_SERIALIZED_LEN_def BIP32_FLAG_KEY_PRIVATE_def BASE58_FLAG_CHECKSUM_def)

lemma base58_checksum_length: "length (base58_checksum L bytes) = 4"
  by (simp add: base58_checksum_def length_be_bytes)

text \<open>
  Claim C1. When the run succeeds (exit code 0), standard output holds exactly one line:
  a string without a newline, followed by a newline. Decoding the string gives 78 bytes
  followed by their 4-byte checksum, and among the 78 bytes the first four are
  \<^verbatim>\<open>04 88 AD E4\<close>, the depth byte is zero and the four bytes of the parent fingerprint
  are zero, whatever depth and parent hash the derived key has: \<^verbatim>\<open>dump_xpriv\<close> overwrites
  both before it serializes the key.
\<close>

theorem xpriv_output:
  assumes "main L E argv = Some (Exited 0, s')"
  shows "\<exists>line bytes.
           stdout s' = line @ newline \<and> CHR 0x0A \<notin> set line \<and>
           base58_decode line = Some (bytes @ base58_checksum L bytes) \<and>
           length (base58_checksum L bytes) = 4 \<and>
           length bytes = 78 \<and>
           take 4 bytes = [0x04, 0x88, 0xAD, 0xE4] \<and>
           bytes ! 4 = 0x00 \<and>
           take 4 (drop 5 bytes) = [0x00, 0x00, 0x00, 0x00]"
  using assms
proof (cases rule: main_cases)
  case usage
  then show ?thesis by (simp add: usage_def)
next
  case (open_fails e)
  then show ?thesis by simp
next
  case (read_fails contents st err fd)
  then show ?thesis by simp
next
  case (finish contents st err fd n)
  let ?k = "grandchild L (master_key L (take 32 contents) BIP32_VER_MAIN_PRIVATE n)"
  let ?line = "xpriv_line L ?k"
  from finish(5) have v: "key_is_valid L (rerooted ?k)" and out: "stdout s' = ?line @ newline"
    by (auto simp: finish_def Let_def whitened_simps split: if_splits)
  have l: "?line = base58_encode (payload (rerooted ?k) @ base58_checksum L (payload (rerooted ?k)))"
    using v by (rule xpriv_line_eq)
  have "CHR 0x0A \<notin> set ?line"
    unfolding l using base58_encode_chars b58_no_newline by blast
  moreover have "base58_decode ?line =
      Some (payload (rerooted ?k) @ base58_checksum L (payload (rerooted ?k)))"
    unfolding l by (rule base58_roundtrip)
  ultimately show ?thesis
    using out payload_length [of "rerooted ?k"] payload_rerooted [of ?k]
      base58_checksum_length [of L "payload (rerooted ?k)"]
    by blast
qed

theorem xpriv_output_witness:
  "depth (grandchild (mock_lib 1 2)
      (master_key (mock_lib 1 2) (replicate 32 0) BIP32_VER_MAIN_PRIVATE 1)) = 2 \<and>
   parent160 (grandchild (mock_lib 1 2)
      (master_key (mock_lib 1 2) (replicate 32 0) BIP32_VER_MAIN_PRIVATE 1)) \<noteq> 0 \<and>
   (\<exists>s' line bytes.
      main (mock_lib 1 2) (mock_env (replicate 32 0) [])
        [''clightning-dumpkeys'', ''hsm_secret''] = Some (Exited 0, s') \<and>
      stdout s' = line @ newline \<and>
      base58_decode line = Some (bytes @ base58_checksum (mock_lib 1 2) bytes) \<and>
      length bytes = 78 \<and>
      take 4 bytes = [0x04, 0x88, 0xAD, 0xE4] \<and>
      bytes ! 4 = 0x00 \<and>
      take 4 (drop 5 bytes) = [0x00, 0x00, 0x00, 0x00])"
proof -
  let ?L = "mock_lib 1 2"
  obtain h s' where f: "finish ?L ''hsm_secret'' 0 (replicate 32 0) 1 = (h, s')"
    by (cases "finish ?L ''hsm_secret'' 0 (replicate 32 0) 1") auto
  with mock_exit(1) [of "''hsm_secret''" 0] have "h = Exited 0" by simp
  with f mock_main [of 2]
  have m: "main ?L (mock_env (replicate 32 0) []) [''clightning-dumpkeys'', ''hsm_secret''] =
      Some (Exited 0, s')"
    by simp
  have "depth (grandchild ?L (master_key ?L (replicate 32 0) BIP32_VER_MAIN_PRIVATE 1)) = 2"
    "parent160 (grandchild ?L (master_key ?L (replicate 32 0) BIP32_VER_MAIN_PRIVATE 1)) \<noteq> 0"
    unfolding grandchild_def derive_def mock_master
    by (simp_all add: mock_lib_def init_sys_def)
  with xpriv_output [OF m] m show ?thesis
    by blast
qed

section \<open>Seed whitening, exit codes and failed derivations of the program\<close>

lemma mainnet_simps:
  "hsm_secret (mainnet s) = hsm_secret s"
  "privver (mainnet s) = BIP32_VER_MAIN_PRIVATE"
  "calls (mainnet s) = calls s"
  by (simp_all add: mainnet_def privver_def)

lemma populate_secretstuff_first:
  assumes "first_accepted L (hsm_secret s0) BIP32_VER_MAIN_PRIVATE n"
  shows "\<exists>r s' rest.
           populate_secretstuff L s0 = Some r \<and> (r = Inr s' \<or> r = Inl (Exited 1, s')) \<and>
           calls s' =
             calls s0 @ whitening L (hsm_secret s0) BIP32_VER_MAIN_PRIVATE n @
             derive_call (master_key L (hsm_secret s0) BIP32_VER_MAIN_PRIVATE n) # rest"
proof -
  let ?m = "master_key L (hsm_secret s0) BIP32_VER_MAIN_PRIVATE n"
  let ?W = "whitening L (hsm_secret s0) BIP32_VER_MAIN_PRIVATE n"
  let ?s1 = "(mainnet s0)\<lparr>calls := calls s0 @ ?W\<rparr>"
  from assms seed_loop_first [of L "mainnet s0" 0 n]
  have sl: "seed_loop L 0 (mainnet s0) = Some (?m, of_nat n + 1, ?s1)"
    by (simp add: first_accepted_def mainnet_simps master_key_def whitening_def)
  consider (d1) "fst (derive L ?m) \<noteq> WALLY_OK"
    | (d2) "fst (derive L ?m) = WALLY_OK" "fst (derive L (snd (derive L ?m))) \<noteq> WALLY_OK"
    | (ok) "fst (derive L ?m) = WALLY_OK" "fst (derive L (snd (derive L ?m))) = WALLY_OK"
    by blast
  then show ?thesis
  proof cases
    case d1
    let ?s' = "?s1\<lparr>calls := calls ?s1 @ [derive_call ?m],
                    stderr := stderr ?s1 @ ''Can't derive child bip32 key''\<rparr>"
    have "populate_secretstuff L s0 = Some (Inl (Exited 1, ?s'))"
      unfolding populate_secretstuff_eq sl using d1 by simp
    moreover have "calls ?s' = calls s0 @ ?W @ derive_call ?m # []"
      by simp
    ultimately show ?thesis by blast
  next
    case d2
    let ?s' = "?s1\<lparr>calls := calls ?s1 @ [derive_call ?m, derive_call (snd (derive L ?m))],
                    bip32 := snd (derive L (snd (derive L ?m))),
                    stderr := stderr ?s1 @ ''Can't derive private bip32 key''\<rparr>"
    have "populate_secretstuff L s0 = Some (Inl (Exited 1, ?s'))"
      unfolding populate_secretstuff_eq sl using d2 by simp
    moreover have "calls ?s' = calls s0 @ ?W @ derive_call ?m # [derive_call (snd (derive L ?m))]"
      by simp
    ultimately show ?thesis by blast
  next
    case ok
    let ?s' = "?s1\<lparr>calls := calls ?s1 @ [derive_call ?m, derive_call (snd (derive L ?m))],
                    bip32 := snd (derive L (snd (derive L ?m)))\<rparr>"
    have "populate_secretstuff L s0 = Some (Inr ?s')"
      unfolding populate_secretstuff_eq sl using ok by simp
    moreover have "calls ?s' = calls s0 @ ?W @ derive_call ?m # [derive_call (snd (derive L ?m))]"
      by simp
    ultimately show ?thesis by blast
  qed
qed

lemma populate_secretstuff_returns:
  assumes "populate_secretstuff L s0 \<noteq> None"
  shows "\<exists>n<2 ^ 32. first_accepted L (hsm_secret s0) BIP32_VER_MAIN_PRIVATE n"
proof -
  from assms obtain m salt s1 where "seed_loop L 0 (mainnet s0) = Some (m, salt, s1)"
    by (auto simp: populate_secretstuff_eq split: option.splits)
  from seed_loop_result [OF this] show ?thesis
    by (auto simp: mainnet_simps)
qed

lemma finish_calls:
  "\<exists>rest. calls (snd (finish L path err secret n)) =
     Call_open path # whitening L secret BIP32_VER_MAIN_PRIVATE n @
     derive_call (master_key L secret BIP32_VER_MAIN_PRIVATE n) # rest"
  by (simp add: finish_def Let_def whitened_simps)

text \<open>
  Claim C2. \<^verbatim>\<open>populate_secretstuff\<close> whitens the secret in \<^verbatim>\<open>secretstuff.hsm_secret\<close>: when
  the candidate of salt \<open>n\<close> is the first that \<^verbatim>\<open>bip32_key_from_seed\<close> accepts, it returns
  or exits, and the calls it has added begin with the attempts for the salts 0, ...,
  \<open>n\<close>, in this order, the \<open>(k+1)\<close>-th with salt \<open>k\<close>: \<^verbatim>\<open>hkdf_sha256\<close> of the secret with
  the 4 salt bytes and the label "bip32 seed", then \<^verbatim>\<open>bip32_key_from_seed\<close> on the
  32-byte result. The next call derives from the master key of salt \<open>n\<close>. If it returns
  or exits at all, such a first accepted salt exists below \<open>2 ^ 32\<close>; while no candidate
  is accepted the loop goes on. In a run of \<^verbatim>\<open>main\<close> that reads the secret file, the
  whitened secret is the first 32 bytes of the file. The four salt bytes are the
  little-endian representation of the salt's value.
\<close>

theorem seed_whitening:
  "(\<forall>n. n < 2 ^ 32 \<and> accepts L (hsm_secret s0) BIP32_VER_MAIN_PRIVATE (of_nat n) \<and>
        (\<forall>j<n. \<not> accepts L (hsm_secret s0) BIP32_VER_MAIN_PRIVATE (of_nat j)) \<longrightarrow>
      (\<exists>r s' rest.
         populate_secretstuff L s0 = Some r \<and> (r = Inr s' \<or> r = Inl (Exited 1, s')) \<and>
         calls s' =
           calls s0 @
           concat (map (\<lambda>k. attempt L (hsm_secret s0) BIP32_VER_MAIN_PRIVATE (of_nat k)) [0..<Suc n]) @
           Call_bip32_key_from_parent
             (snd (bip32_key_from_seed L (candidate L (hsm_secret s0) (of_nat n))
                BIP32_VER_MAIN_PRIVATE 0))
             0 BIP32_FLAG_KEY_PRIVATE # rest)) \<and>
   (populate_secretstuff L s0 \<noteq> None \<longrightarrow>
      (\<exists>n<2 ^ 32. accepts L (hsm_secret s0) BIP32_VER_MAIN_PRIVATE (of_nat n) \<and>
         (\<forall>j<n. \<not> accepts L (hsm_secret s0) BIP32_VER_MAIN_PRIVATE (of_nat j)))) \<and>
   ((\<forall>n. \<not> accepts L (hsm_secret s0) BIP32_VER_MAIN_PRIVATE (of_nat n)) \<longrightarrow>
      populate_secretstuff L s0 = None) \<and>
   (\<forall>contents n. length argv = 2 \<and> fs E (argv ! 1) = Inr contents \<and>
        fst (read_all \<lparr>pending = contents, script = reads E\<rparr> 0 [] 32) \<and>
        accepts L (take 32 contents) BIP32_VER_MAIN_PRIVATE (of_nat n) \<and>
        (\<forall>j<n. \<not> accepts L (take 32 contents) BIP32_VER_MAIN_PRIVATE (of_nat j)) \<longrightarrow>
      (\<exists>h s' rest.
         main L E argv = Some (h, s') \<and>
         calls s' =
           Call_open (argv ! 1) #
           concat (map (\<lambda>k. attempt L (take 32 contents) BIP32_VER_MAIN_PRIVATE (of_nat k)) [0..<Suc n]) @
           Call_bip32_key_from_parent
             (snd (bip32_key_from_seed L (candidate L (take 32 contents) (of_nat n))
                BIP32_VER_MAIN_PRIVATE 0))
             0 BIP32_FLAG_KEY_PRIVATE # rest)) \<and>
   (\<forall>k<2 ^ 32. length (le_bytes 4 (of_nat k :: u32)) = 4 \<and>
      le_nat (le_bytes 4 (of_nat k :: u32)) = k)"
proof -
  have A: "\<forall>n. n < 2 ^ 32 \<and> accepts L (hsm_secret s0) BIP32_VER_MAIN_PRIVATE (of_nat n) \<and>
        (\<forall>j<n. \<not> accepts L (hsm_secret s0) BIP32_VER_MAIN_PRIVATE (of_nat j)) \<longrightarrow>
      (\<exists>r s' rest.
         populate_secretstuff L s0 = Some r \<and> (r = Inr s' \<or> r = Inl (Exited 1, s')) \<and>
         calls s' =
           calls s0 @
           concat (map (\<lambda>k. attempt L (hsm_secret s0) BIP32_VER_MAIN_PRIVATE (of_nat k)) [0..<Suc n]) @
           Call_bip32_key_from_parent
             (snd (bip32_key_from_seed L (candidate L (hsm_secret s0) (of_nat n))
                BIP32_VER_MAIN_PRIVATE 0))
             0 BIP32_FLAG_KEY_PRIVATE # rest)"
  proof (intro allI impI)
    fix n
    assume "n < 2 ^ 32 \<and> accepts L (hsm_secret s0) BIP32_VER_MAIN_PRIVATE (of_nat n) \<and>
        (\<forall>j<n. \<not> accepts L (hsm_secret s0) BIP32_VER_MAIN_PRIVATE (of_nat j))"
    then have "first_accepted L (hsm_secret s0) BIP32_VER_MAIN_PRIVATE n"
      by (simp add: first_accepted_def)
    from populate_secretstuff_first [OF this]
    show "\<exists>r s' rest.
         populate_secretstuff L s0 = Some r \<and> (r = Inr s' \<or> r = Inl (Exited 1, s')) \<and>
         calls s' =
           calls s0 @
           concat (map (\<lambda>k. attempt L (hsm_secret s0) BIP32_VER_MAIN_PRIVATE (of_nat k)) [0..<Suc n]) @
           Call_bip32_key_from_parent
             (snd (bip32_key_from_seed L (candidate L (hsm_secret s0) (of_nat n))
                BIP32_VER_MAIN_PRIVATE 0))
             0 BIP32_FLAG_KEY_PRIVATE # rest"
      unfolding whitening_def derive_call_def master_key_def .
  qed
  have B: "populate_secretstuff L s0 \<noteq> None \<longrightarrow>
      (\<exists>n<2 ^ 32. accepts L (hsm_secret s0) BIP32_VER_MAIN_PRIVATE (of_nat n) \<and>
         (\<forall>j<n. \<not> accepts L (hsm_secret s0) BIP32_VER_MAIN_PRIVATE (of_nat j)))"
    using populate_secretstuff_returns [of L s0] unfolding first_accepted_def by blast
  have C: "(\<forall>n. \<not> accepts L (hsm_secret s0) BIP32_VER_MAIN_PRIVATE (of_nat n)) \<longrightarrow>
      populate_secretstuff L s0 = None"
    using B by blast
  have D: "\<forall>contents n. length argv = 2 \<and> fs E (argv ! 1) = Inr contents \<and>
        fst (read_all \<lparr>pending = contents, script = reads E\<rparr> 0 [] 32) \<and>
        accepts L (take 32 contents) BIP32_VER_MAIN_PRIVATE (of_nat n) \<and>
        (\<forall>j<n. \<not> accepts L (take 32 contents) BIP32_VER_MAIN_PRIVATE (of_nat j)) \<longrightarrow>
      (\<exists>h s' rest.
         main L E argv = Some (h, s') \<and>
         calls s' =
           Call_open (argv ! 1) #
           concat (map (\<lambda>k. attempt L (take 32 contents) BIP32_VER_MAIN_PRIVATE (of_nat k)) [0..<Suc n]) @
           Call_bip32_key_from_parent
             (snd (bip32_key_from_seed L (candidate L (take 32 contents) (of_nat n))
                BIP32_VER_MAIN_PRIVATE 0))
             0 BIP32_FLAG_KEY_PRIVATE # rest)"
  proof (intro allI impI)
    fix contents n
    assume a: "length argv = 2 \<and> fs E (argv ! 1) = Inr contents \<and>
        fst (read_all \<lparr>pending = contents, script = reads E\<rparr> 0 [] 32) \<and>
        accepts L (take 32 contents) BIP32_VER_MAIN_PRIVATE (of_nat n) \<and>
        (\<forall>j<n. \<not> accepts L (take 32 contents) BIP32_VER_MAIN_PRIVATE (of_nat j))"
    then have fa: "first_accepted L (take 32 contents) BIP32_VER_MAIN_PRIVATE n"
      by (simp add: first_accepted_def)
    from a obtain st err fd where
      r: "read_all \<lparr>pending = contents, script = reads E\<rparr> 0 [] 32 = (True, st, err, fd)"
      by (cases "read_all \<lparr>pending = contents, script = reads E\<rparr> 0 [] 32") auto
    from a have len: "length argv = 2" and f: "fs E (argv ! 1) = Inr contents" by simp_all
    obtain h s' where hs: "finish L (argv ! 1) err (take 32 contents) n = (h, s')"
      by (cases "finish L (argv ! 1) err (take 32 contents) n") auto
    from finish_calls [of L "argv ! 1" err "take 32 contents" n] hs
    obtain rest where "calls s' =
        Call_open (argv ! 1) # whitening L (take 32 contents) BIP32_VER_MAIN_PRIVATE n @
        derive_call (master_key L (take 32 contents) BIP32_VER_MAIN_PRIVATE n) # rest"
      by auto
    with main_finish [OF len f r fa] hs
    show "\<exists>h s' rest.
         main L E argv = Some (h, s') \<and>
         calls s' =
           Call_open (argv ! 1) #
           concat (map (\<lambda>k. attempt L (take 32 contents) BIP32_VER_MAIN_PRIVATE (of_nat k)) [0..<Suc n]) @
           Call_bip32_key_from_parent
             (snd (bip32_key_from_seed L (candidate L (take 32 contents) (of_nat n))
                BIP32_VER_MAIN_PRIVATE 0))
             0 BIP32_FLAG_KEY_PRIVATE # rest"
      unfolding whitening_def derive_call_def master_key_def
      by (intro exI [of _ h] exI [of _ s'] exI [of _ rest]) simp
  qed
  have F: "\<forall>k<2 ^ 32. length (le_bytes 4 (of_nat k :: u32)) = 4 \<and>
      le_nat (le_bytes 4 (of_nat k :: u32)) = k"
  proof (intro allI impI conjI)
    fix k :: nat
    show "length (le_bytes 4 (of_nat k :: u32)) = 4"
      by (simp add: le_bytes_def)
    assume "k < 2 ^ 32"
    then show "le_nat (le_bytes 4 (of_nat k :: u32)) = k"
      by (rule le_nat_le_bytes)
  qed
  from A B C D F show ?thesis by blast
qed

theorem seed_whitening_witness:
  "\<exists>r s' rest.
     populate_secretstuff (mock_lib 2 2) init_sys = Some r \<and>
     (r = Inr s' \<or> r = Inl (Exited 1, s')) \<and>
     calls s' =
       concat (map (\<lambda>k. attempt (mock_lib 2 2) (replicate 32 0) BIP32_VER_MAIN_PRIVATE (of_nat k))
         [0..<3]) @
       Call_bip32_key_from_parent
         ((bip32 init_sys)\<lparr>version := BIP32_VER_MAIN_PRIVATE, priv_key := 7\<rparr>)
         0 BIP32_FLAG_KEY_PRIVATE # rest"
proof -
  let ?L = "mock_lib 2 2"
  have sec: "hsm_secret init_sys = replicate 32 0" "calls init_sys = []"
    by (simp_all add: init_sys_def)
  have a: "accepts ?L (hsm_secret init_sys) BIP32_VER_MAIN_PRIVATE (of_nat 2)"
    by (simp add: accepts_def candidate_def mock_lib_def le_bytes_def upt_rec
        BIP32_ENTROPY_LEN_256_def)
  have r: "\<forall>j<2. \<not> accepts ?L (hsm_secret init_sys) BIP32_VER_MAIN_PRIVATE (of_nat j)"
  proof (intro allI impI)
    fix j :: nat
    assume "j < 2"
    then have "j = 0 \<or> j = 1" by auto
    then show "\<not> accepts ?L (hsm_secret init_sys) BIP32_VER_MAIN_PRIVATE (of_nat j)"
      by (auto simp: accepts_def candidate_def mock_lib_def le_bytes_def upt_rec
          BIP32_ENTROPY_LEN_256_def)
  qed
  have k: "snd (bip32_key_from_seed ?L (candidate ?L (replicate 32 0) (of_nat 2))
      BIP32_VER_MAIN_PRIVATE 0) =
      (bip32 init_sys)\<lparr>version := BIP32_VER_MAIN_PRIVATE, priv_key := 7\<rparr>"
    by (simp add: candidate_def mock_lib_def le_bytes_def upt_rec BIP32_ENTROPY_LEN_256_def)
  have "(2::nat) < 2 ^ 32" by simp
  with a r seed_whitening [of ?L init_sys "[]" "mock_env [] []"]
  have "\<exists>r s' rest.
      populate_secretstuff ?L init_sys = Some r \<and> (r = Inr s' \<or> r = Inl (Exited 1, s')) \<and>
      calls s' =
        calls init_sys @
        concat (map (\<lambda>k. attempt ?L (hsm_secret init_sys) BIP32_VER_MAIN_PRIVATE (of_nat k)) [0..<Suc 2]) @
        Call_bip32_key_from_parent
          (snd (bip32_key_from_seed ?L (candidate ?L (hsm_secret init_sys) (of_nat 2))
             BIP32_VER_MAIN_PRIVATE 0))
          0 BIP32_FLAG_KEY_PRIVATE # rest"
    by blast
  then have "\<exists>r s' rest.
      populate_secretstuff ?L init_sys = Some r \<and> (r = Inr s' \<or> r = Inl (Exited 1, s')) \<and>
      calls s' =
        [] @
        concat (map (\<lambda>k. attempt ?L (replicate 32 0) BIP32_VER_MAIN_PRIVATE (of_nat k)) [0..<Suc 2]) @
        Call_bip32_key_from_parent
          ((bip32 init_sys)\<lparr>version := BIP32_VER_MAIN_PRIVATE, priv_key := 7\<rparr>)
          0 BIP32_FLAG_KEY_PRIVATE # rest"
    unfolding sec k .
  moreover have "Suc 2 = 3" by simp
  ultimately show ?thesis
    by (simp only: append_Nil)
qed

text \<open>
  Claim C5. The process exits with code 42 when \<^verbatim>\<open>argc\<close> is not 2; with code 1 when the
  secret file cannot be opened, when it cannot be read in full, and when a seed is
  accepted and one of the two child derivations fails; with code 0, and a line on
  standard output, when a seed is accepted, both derivations succeed and the serializer
  accepts the key. The process fails to end only when the secret is read and no
  candidate seed is ever accepted. Of a run that has ended: the code is 42 exactly when
  \<^verbatim>\<open>argc\<close> is not 2, 1 exactly for the three failures, and 0 exactly when none of them
  happened and the assertion on the serializer's return code held, whose failure
  aborts the process.
\<close>

theorem exit_codes:
  "(length argv \<noteq> 2 \<longrightarrow> (\<exists>s'. main L E argv = Some (Exited 42, s'))) \<and>
   (length argv = 2 \<and> cannot_open E argv \<longrightarrow> (\<exists>s'. main L E argv = Some (Exited 1, s'))) \<and>
   (length argv = 2 \<and> cannot_read E argv \<longrightarrow> (\<exists>s'. main L E argv = Some (Exited 1, s'))) \<and>
   (\<forall>contents n.
      length argv = 2 \<and> fs E (argv ! 1) = Inr contents \<and> \<not> cannot_read E argv \<and>
      first_accepted L (take 32 contents) BIP32_VER_MAIN_PRIVATE n \<and>
      (fst (derive L (master_key L (take 32 contents) BIP32_VER_MAIN_PRIVATE n)) \<noteq> WALLY_OK \<or>
       fst (derive L (snd (derive L (master_key L (take 32 contents) BIP32_VER_MAIN_PRIVATE n))))
         \<noteq> WALLY_OK) \<longrightarrow>
      (\<exists>s'. main L E argv = Some (Exited 1, s'))) \<and>
   (\<forall>contents n.
      length argv = 2 \<and> fs E (argv ! 1) = Inr contents \<and> \<not> cannot_read E argv \<and>
      first_accepted L (take 32 contents) BIP32_VER_MAIN_PRIVATE n \<and>
      fst (derive L (master_key L (take 32 contents) BIP32_VER_MAIN_PRIVATE n)) = WALLY_OK \<and>
      fst (derive L (snd (derive L (master_key L (take 32 contents) BIP32_VER_MAIN_PRIVATE n))))
        = WALLY_OK \<and>
      key_is_valid L
        (rerooted (grandchild L (master_key L (take 32 contents) BIP32_VER_MAIN_PRIVATE n))) \<longrightarrow>
      (\<exists>s'. main L E argv = Some (Exited 0, s') \<and> stdout s' \<noteq> [])) \<and>
   (main L E argv = None \<longrightarrow>
      length argv = 2 \<and>
      (\<exists>contents. fs E (argv ! 1) = Inr contents \<and> \<not> cannot_read E argv \<and>
         (\<forall>n. \<not> first_accepted L (take 32 contents) BIP32_VER_MAIN_PRIVATE n))) \<and>
   (\<forall>h s'. main L E argv = Some (h, s') \<longrightarrow>
      (h = Exited 42 \<longleftrightarrow> length argv \<noteq> 2) \<and>
      (h = Exited 1 \<longleftrightarrow>
         length argv = 2 \<and>
         (cannot_open E argv \<or> cannot_read E argv \<or> list_ex (failed_derivation L) (calls s'))) \<and>
      (h = Aborted \<longleftrightarrow> length argv = 2 \<and> list_ex (failed_assertion L) (calls s')) \<and>
      (h = Exited 0 \<longleftrightarrow>
         length argv = 2 \<and> \<not> cannot_open E argv \<and> \<not> cannot_read E argv \<and>
         \<not> list_ex (failed_derivation L) (calls s') \<and>
         \<not> list_ex (failed_assertion L) (calls s')))"
proof -
  have c_usage: "length argv \<noteq> 2 \<longrightarrow> (\<exists>s'. main L E argv = Some (Exited 42, s'))"
    by (simp add: main_usage usage_def)
  have c_open: "length argv = 2 \<and> cannot_open E argv \<longrightarrow>
      (\<exists>s'. main L E argv = Some (Exited 1, s'))"
  proof
    assume a: "length argv = 2 \<and> cannot_open E argv"
    then obtain e where "fs E (argv ! 1) = Inl e"
      by (auto simp: cannot_open_def split: sum.splits)
    with a main_open_fails [of argv E e L] show "\<exists>s'. main L E argv = Some (Exited 1, s')"
      by simp
  qed
  have c_read: "length argv = 2 \<and> cannot_read E argv \<longrightarrow>
      (\<exists>s'. main L E argv = Some (Exited 1, s'))"
  proof
    assume a: "length argv = 2 \<and> cannot_read E argv"
    then obtain contents where f: "fs E (argv ! 1) = Inr contents"
      and nr: "\<not> fst (read_all \<lparr>pending = contents, script = reads E\<rparr> 0 [] 32)"
      by (auto simp: cannot_read_def split: sum.splits)
    then obtain st err fd where
      "read_all \<lparr>pending = contents, script = reads E\<rparr> 0 [] 32 = (False, st, err, fd)"
      by (cases "read_all \<lparr>pending = contents, script = reads E\<rparr> 0 [] 32") auto
    with a f main_read_fails [of argv E contents st err fd L]
    show "\<exists>s'. main L E argv = Some (Exited 1, s')"
      by simp
  qed
  have run: "main L E argv = Some (finish L (argv ! 1) err (take 32 contents) n)"
    if "length argv = 2" "fs E (argv ! 1) = Inr contents" "\<not> cannot_read E argv"
      "first_accepted L (take 32 contents) BIP32_VER_MAIN_PRIVATE n"
      "read_all \<lparr>pending = contents, script = reads E\<rparr> 0 [] 32 = (ok, st, err, fd)"
    for contents n ok st err fd
  proof -
    from that(2,3,5) have "ok" by (simp add: cannot_read_def)
    with that(5) have "read_all \<lparr>pending = contents, script = reads E\<rparr> 0 [] 32 = (True, st, err, fd)"
      by simp
    from main_finish [OF that(1,2) this that(4)] show ?thesis .
  qed
  have c_derive: "\<forall>contents n.
      length argv = 2 \<and> fs E (argv ! 1) = Inr contents \<and> \<not> cannot_read E argv \<and>
      first_accepted L (take 32 contents) BIP32_VER_MAIN_PRIVATE n \<and>
      (fst (derive L (master_key L (take 32 contents) BIP32_VER_MAIN_PRIVATE n)) \<noteq> WALLY_OK \<or>
       fst (derive L (snd (derive L (master_key L (take 32 contents) BIP32_VER_MAIN_PRIVATE n))))
         \<noteq> WALLY_OK) \<longrightarrow>
      (\<exists>s'. main L E argv = Some (Exited 1, s'))"
  proof (intro allI impI)
    fix contents n
    assume a: "length argv = 2 \<and> fs E (argv ! 1) = Inr contents \<and> \<not> cannot_read E argv \<and>
      first_accepted L (take 32 contents) BIP32_VER_MAIN_PRIVATE n \<and>
      (fst (derive L (master_key L (take 32 contents) BIP32_VER_MAIN_PRIVATE n)) \<noteq> WALLY_OK \<or>
       fst (derive L (snd (derive L (master_key L (take 32 contents) BIP32_VER_MAIN_PRIVATE n))))
         \<noteq> WALLY_OK)"
    obtain ok st err fd where
      r: "read_all \<lparr>pending = contents, script = reads E\<rparr> 0 [] 32 = (ok, st, err, fd)"
      by (cases "read_all \<lparr>pending = contents, script = reads E\<rparr> 0 [] 32") auto
    from a have "fst (finish L (argv ! 1) err (take 32 contents) n) = Exited 1"
      by (auto simp: finish_def Let_def)
    with run [of contents n ok st err fd] a r show "\<exists>s'. main L E argv = Some (Exited 1, s')"
      by (metis prod.collapse)
  qed
  have c_success: "\<forall>contents n.
      length argv = 2 \<and> fs E (argv ! 1) = Inr contents \<and> \<not> cannot_read E argv \<and>
      first_accepted L (take 32 contents) BIP32_VER_MAIN_PRIVATE n \<and>
      fst (derive L (master_key L (take 32 contents) BIP32_VER_MAIN_PRIVATE n)) = WALLY_OK \<and>
      fst (derive L (snd (derive L (master_key L (take 32 contents) BIP32_VER_MAIN_PRIVATE n))))
        = WALLY_OK \<and>
      key_is_valid L
        (rerooted (grandchild L (master_key L (take 32 contents) BIP32_VER_MAIN_PRIVATE n))) \<longrightarrow>
      (\<exists>s'. main L E argv = Some (Exited 0, s') \<and> stdout s' \<noteq> [])"
  proof (intro allI impI)
    fix contents n
    assume a: "length argv = 2 \<and> fs E (argv ! 1) = Inr contents \<and> \<not> cannot_read E argv \<and>
      first_accepted L (take 32 contents) BIP32_VER_MAIN_PRIVATE n \<and>
      fst (derive L (master_key L (take 32 contents) BIP32_VER_MAIN_PRIVATE n)) = WALLY_OK \<and>
      fst (derive L (snd (derive L (master_key L (take 32 contents) BIP32_VER_MAIN_PRIVATE n))))
        = WALLY_OK \<and>
      key_is_valid L
        (rerooted (grandchild L (master_key L (take 32 contents) BIP32_VER_MAIN_PRIVATE n)))"
    obtain ok st err fd where
      r: "read_all \<lparr>pending = contents, script = reads E\<rparr> 0 [] 32 = (ok, st, err, fd)"
      by (cases "read_all \<lparr>pending = contents, script = reads E\<rparr> 0 [] 32") auto
    from a have "fst (finish L (argv ! 1) err (take 32 contents) n) = Exited 0"
      "stdout (snd (finish L (argv ! 1) err (take 32 contents) n)) \<noteq> []"
      by (simp_all add: finish_def Let_def newline_def)
    with run [of contents n ok st err fd] a r
    show "\<exists>s'. main L E argv = Some (Exited 0, s') \<and> stdout s' \<noteq> []"
      by (metis prod.collapse)
  qed
  have c_never: "main L E argv = None \<longrightarrow>
      length argv = 2 \<and>
      (\<exists>contents. fs E (argv ! 1) = Inr contents \<and> \<not> cannot_read E argv \<and>
         (\<forall>n. \<not> first_accepted L (take 32 contents) BIP32_VER_MAIN_PRIVATE n))"
  proof
    assume none: "main L E argv = None"
    with c_usage have len: "length argv = 2" by auto
    from none c_open len have "\<not> cannot_open E argv" by auto
    then obtain contents where f: "fs E (argv ! 1) = Inr contents"
      by (auto simp: cannot_open_def split: sum.splits)
    from none c_read len have nr: "\<not> cannot_read E argv" by auto
    obtain ok st err fd where
      r: "read_all \<lparr>pending = contents, script = reads E\<rparr> 0 [] 32 = (ok, st, err, fd)"
      by (cases "read_all \<lparr>pending = contents, script = reads E\<rparr> 0 [] 32") auto
    have "\<not> first_accepted L (take 32 contents) BIP32_VER_MAIN_PRIVATE n" for n
      using run [OF len f nr _ r, of n] none by auto
    with len f nr show "length argv = 2 \<and>
      (\<exists>contents. fs E (argv ! 1) = Inr contents \<and> \<not> cannot_read E argv \<and>
         (\<forall>n. \<not> first_accepted L (take 32 contents) BIP32_VER_MAIN_PRIVATE n))"
      by blast
  qed
  have c_ended: "\<forall>h s'. main L E argv = Some (h, s') \<longrightarrow>
      (h = Exited 42 \<longleftrightarrow> length argv \<noteq> 2) \<and>
      (h = Exited 1 \<longleftrightarrow>
         length argv = 2 \<and>
         (cannot_open E argv \<or> cannot_read E argv \<or> list_ex (failed_derivation L) (calls s'))) \<and>
      (h = Aborted \<longleftrightarrow> length argv = 2 \<and> list_ex (failed_assertion L) (calls s')) \<and>
      (h = Exited 0 \<longleftrightarrow>
         length argv = 2 \<and> \<not> cannot_open E argv \<and> \<not> cannot_read E argv \<and>
         \<not> list_ex (failed_derivation L) (calls s') \<and>
         \<not> list_ex (failed_assertion L) (calls s'))"
    using ending_exit_codes [of L E argv] by blast
  from c_usage c_open c_read c_derive c_success c_never c_ended show ?thesis
    by (intro conjI)
qed

lemma mock_not_cannot_read:
  "\<not> cannot_read (mock_env (replicate 32 0) []) [name, ''hsm_secret'']"
  by (simp add: cannot_read_def mock_env_def mock_read)

lemma mock_derive:
  "fst (derive (mock_lib 1 2) (master_key (mock_lib 1 2) (replicate 32 0) BIP32_VER_MAIN_PRIVATE 1)) = WALLY_OK"
  "fst (derive (mock_lib 1 2)
     (snd (derive (mock_lib 1 2) (master_key (mock_lib 1 2) (replicate 32 0) BIP32_VER_MAIN_PRIVATE 1)))) = WALLY_OK"
  "fst (derive (mock_lib 1 1) (master_key (mock_lib 1 1) (replicate 32 0) BIP32_VER_MAIN_PRIVATE 1)) = WALLY_OK"
  "fst (derive (mock_lib 1 1)
     (snd (derive (mock_lib 1 1) (master_key (mock_lib 1 1) (replicate 32 0) BIP32_VER_MAIN_PRIVATE 1)))) \<noteq> WALLY_OK"
  "fst (derive (mock_lib 1 0) (master_key (mock_lib 1 0) (replicate 32 0) BIP32_VER_MAIN_PRIVATE 1)) \<noteq> WALLY_OK"
  "key_is_valid (mock_lib 1 2) k"
  unfolding mock_master derive_def by (simp_all add: mock_lib_def init_sys_def)

theorem exit_codes_witness:
  "(\<exists>s'. main (mock_lib 1 2) (mock_env (replicate 32 0) []) [''clightning-dumpkeys''] =
      Some (Exited 42, s')) \<and>
   (\<exists>s'. main (mock_lib 1 2) (mock_env (replicate 32 0) []) [''clightning-dumpkeys'', ''missing''] =
      Some (Exited 1, s')) \<and>
   (\<exists>s'. main (mock_lib 1 2) (mock_env [1, 2, 3] []) [''clightning-dumpkeys'', ''hsm_secret''] =
      Some (Exited 1, s')) \<and>
   (\<exists>s'. main (mock_lib 1 1) (mock_env (replicate 32 0) []) [''clightning-dumpkeys'', ''hsm_secret''] =
      Some (Exited 1, s')) \<and>
   (\<exists>s'. main (mock_lib 1 2) (mock_env (replicate 32 0) []) [''clightning-dumpkeys'', ''hsm_secret''] =
      Some (Exited 0, s') \<and> stdout s' \<noteq> [])"
proof -
  let ?E = "mock_env (replicate 32 0) []"
  let ?argv = "[''clightning-dumpkeys'', ''hsm_secret'']"
  have 1: "\<exists>s'. main (mock_lib 1 2) ?E [''clightning-dumpkeys''] = Some (Exited 42, s')"
    using exit_codes [of "[''clightning-dumpkeys'']" "mock_lib 1 2" ?E] by simp
  have "cannot_open ?E [''clightning-dumpkeys'', ''missing'']"
    by (simp add: cannot_open_def mock_env_def)
  then have 2: "\<exists>s'. main (mock_lib 1 2) ?E [''clightning-dumpkeys'', ''missing''] = Some (Exited 1, s')"
    using exit_codes [of "[''clightning-dumpkeys'', ''missing'']" "mock_lib 1 2" ?E] by simp
  have "cannot_read (mock_env [1, 2, 3] []) ?argv"
    by (simp add: cannot_read_def mock_env_def read_all.simps sys_read_def)
  then have 3: "\<exists>s'. main (mock_lib 1 2) (mock_env [1, 2, 3] []) ?argv = Some (Exited 1, s')"
    using exit_codes [of ?argv "mock_lib 1 2" "mock_env [1, 2, 3] []"] by simp
  have f: "fs ?E (?argv ! 1) = Inr (replicate 32 0)" "length ?argv = 2"
    "take 32 (replicate 32 (0 :: u8)) = replicate 32 0"
    by (simp_all add: mock_env_def)
  have p4: "length ?argv = 2 \<and> fs ?E (?argv ! 1) = Inr (replicate 32 0) \<and> \<not> cannot_read ?E ?argv \<and>
      first_accepted (mock_lib 1 1) (take 32 (replicate 32 0)) BIP32_VER_MAIN_PRIVATE 1 \<and>
      (fst (derive (mock_lib 1 1)
         (master_key (mock_lib 1 1) (take 32 (replicate 32 0)) BIP32_VER_MAIN_PRIVATE 1)) \<noteq> WALLY_OK \<or>
       fst (derive (mock_lib 1 1) (snd (derive (mock_lib 1 1)
         (master_key (mock_lib 1 1) (take 32 (replicate 32 0)) BIP32_VER_MAIN_PRIVATE 1))))
         \<noteq> WALLY_OK)"
    using f(1,2) mock_not_cannot_read [of "''clightning-dumpkeys''"] mock_first_accepted [of 1]
      mock_derive(4)
    by (simp only: f(3) simp_thms)
  have 4: "\<exists>s'. main (mock_lib 1 1) ?E ?argv = Some (Exited 1, s')"
    by (rule exit_codes [of ?argv "mock_lib 1 1" ?E, THEN conjunct2, THEN conjunct2, THEN conjunct2,
          THEN conjunct1, rule_format, OF p4])
  have p5: "length ?argv = 2 \<and> fs ?E (?argv ! 1) = Inr (replicate 32 0) \<and> \<not> cannot_read ?E ?argv \<and>
      first_accepted (mock_lib 1 2) (take 32 (replicate 32 0)) BIP32_VER_MAIN_PRIVATE 1 \<and>
      fst (derive (mock_lib 1 2)
         (master_key (mock_lib 1 2) (take 32 (replicate 32 0)) BIP32_VER_MAIN_PRIVATE 1)) = WALLY_OK \<and>
      fst (derive (mock_lib 1 2) (snd (derive (mock_lib 1 2)
         (master_key (mock_lib 1 2) (take 32 (replicate 32 0)) BIP32_VER_MAIN_PRIVATE 1))))
         = WALLY_OK \<and>
      key_is_valid (mock_lib 1 2)
        (rerooted (grandchild (mock_lib 1 2)
           (master_key (mock_lib 1 2) (take 32 (replicate 32 0)) BIP32_VER_MAIN_PRIVATE 1)))"
    using f(1,2) mock_not_cannot_read [of "''clightning-dumpkeys''"] mock_first_accepted [of 2]
      mock_derive(1,2) mock_derive(6)
    by (simp only: f(3) simp_thms)
  have 5: "\<exists>s'. main (mock_lib 1 2) ?E ?argv = Some (Exited 0, s') \<and> stdout s' \<noteq> []"
    by (rule exit_codes [of ?argv "mock_lib 1 2" ?E, THEN conjunct2, THEN conjunct2, THEN conjunct2,
          THEN conjunct2, THEN conjunct1, rule_format, OF p5])
  from 1 2 3 4 5 show ?thesis by (intro conjI)
qed

text \<open>
  Claim C8. When the secret is read, a seed is accepted and the first child derivation
  reports an error, the process exits with code 1 with the message "Can't derive child
  bip32 key" on standard error and nothing on standard output, and the failed derivation
  is its last call. When the first succeeds and the second reports an error, the same
  holds with the message "Can't derive private bip32 key". So nothing is retried. In any
  run that ends, a call of \<^verbatim>\<open>bip32_key_from_parent\<close> that reported an error is the last
  call, has index 0 and the private-key flag, and the run has made at most two child
  derivations.
\<close>

theorem derivation_failure:
  "(\<forall>contents n.
      length argv = 2 \<and> fs E (argv ! 1) = Inr contents \<and> \<not> cannot_read E argv \<and>
      first_accepted L (take 32 contents) BIP32_VER_MAIN_PRIVATE n \<and>
      fst (derive L (master_key L (take 32 contents) BIP32_VER_MAIN_PRIVATE n)) \<noteq> WALLY_OK \<longrightarrow>
      (\<exists>s'. main L E argv = Some (Exited 1, s') \<and> stdout s' = [] \<and>
         stderr s' = ''Can't derive child bip32 key'' \<and>
         calls s' =
           Call_open (argv ! 1) # whitening L (take 32 contents) BIP32_VER_MAIN_PRIVATE n @
           [derive_call (master_key L (take 32 contents) BIP32_VER_MAIN_PRIVATE n)])) \<and>
   (\<forall>contents n.
      length argv = 2 \<and> fs E (argv ! 1) = Inr contents \<and> \<not> cannot_read E argv \<and>
      first_accepted L (take 32 contents) BIP32_VER_MAIN_PRIVATE n \<and>
      fst (derive L (master_key L (take 32 contents) BIP32_VER_MAIN_PRIVATE n)) = WALLY_OK \<and>
      fst (derive L (snd (derive L (master_key L (take 32 contents) BIP32_VER_MAIN_PRIVATE n))))
        \<noteq> WALLY_OK \<longrightarrow>
      (\<exists>s'. main L E argv = Some (Exited 1, s') \<and> stdout s' = [] \<and>
         stderr s' = ''Can't derive private bip32 key'' \<and>
         calls s' =
           Call_open (argv ! 1) # whitening L (take 32 contents) BIP32_VER_MAIN_PRIVATE n @
           [derive_call (master_key L (take 32 contents) BIP32_VER_MAIN_PRIVATE n),
            derive_call (snd (derive L (master_key L (take 32 contents) BIP32_VER_MAIN_PRIVATE n)))])) \<and>
   (\<forall>h s' parent i f.
      main L E argv = Some (h, s') \<and>
      Call_bip32_key_from_parent parent i f \<in> set (calls s') \<and>
      fst (bip32_key_from_parent L parent i f) \<noteq> WALLY_OK \<longrightarrow>
      h = Exited 1 \<and> stdout s' = [] \<and>
      (stderr s' = ''Can't derive child bip32 key'' \<or>
       stderr s' = ''Can't derive private bip32 key'') \<and>
      last (calls s') = Call_bip32_key_from_parent parent i f \<and>
      i = 0 \<and> f = BIP32_FLAG_KEY_PRIVATE \<and>
      length (filter is_child_derivation (calls s')) \<le> 2)"
proof -
  have run: "main L E argv = Some (finish L (argv ! 1) err (take 32 contents) n)"
    if "length argv = 2" "fs E (argv ! 1) = Inr contents" "\<not> cannot_read E argv"
      "first_accepted L (take 32 contents) BIP32_VER_MAIN_PRIVATE n"
      "read_all \<lparr>pending = contents, script = reads E\<rparr> 0 [] 32 = (ok, st, err, fd)"
    for contents n ok st err fd
  proof -
    from that(2,3,5) have "ok" by (simp add: cannot_read_def)
    with that(5) have "read_all \<lparr>pending = contents, script = reads E\<rparr> 0 [] 32 = (True, st, err, fd)"
      by simp
    from main_finish [OF that(1,2) this that(4)] show ?thesis .
  qed
  have c_first: "\<forall>contents n.
      length argv = 2 \<and> fs E (argv ! 1) = Inr contents \<and> \<not> cannot_read E argv \<and>
      first_accepted L (take 32 contents) BIP32_VER_MAIN_PRIVATE n \<and>
      fst (derive L (master_key L (take 32 contents) BIP32_VER_MAIN_PRIVATE n)) \<noteq> WALLY_OK \<longrightarrow>
      (\<exists>s'. main L E argv = Some (Exited 1, s') \<and> stdout s' = [] \<and>
         stderr s' = ''Can't derive child bip32 key'' \<and>
         calls s' =
           Call_open (argv ! 1) # whitening L (take 32 contents) BIP32_VER_MAIN_PRIVATE n @
           [derive_call (master_key L (take 32 contents) BIP32_VER_MAIN_PRIVATE n)])"
  proof (intro allI impI)
    fix contents n
    assume a: "length argv = 2 \<and> fs E (argv ! 1) = Inr contents \<and> \<not> cannot_read E argv \<and>
      first_accepted L (take 32 contents) BIP32_VER_MAIN_PRIVATE n \<and>
      fst (derive L (master_key L (take 32 contents) BIP32_VER_MAIN_PRIVATE n)) \<noteq> WALLY_OK"
    obtain ok st err fd where
      r: "read_all \<lparr>pending = contents, script = reads E\<rparr> 0 [] 32 = (ok, st, err, fd)"
      by (cases "read_all \<lparr>pending = contents, script = reads E\<rparr> 0 [] 32") auto
    from a have m: "main L E argv = Some (finish L (argv ! 1) err (take 32 contents) n)"
      using run [of contents n ok st err fd] r by simp
    show "\<exists>s'. main L E argv = Some (Exited 1, s') \<and> stdout s' = [] \<and>
         stderr s' = ''Can't derive child bip32 key'' \<and>
         calls s' =
           Call_open (argv ! 1) # whitening L (take 32 contents) BIP32_VER_MAIN_PRIVATE n @
           [derive_call (master_key L (take 32 contents) BIP32_VER_MAIN_PRIVATE n)]"
      unfolding m using a by (simp add: finish_def Let_def whitened_simps)
  qed
  have c_second: "\<forall>contents n.
      length argv = 2 \<and> fs E (argv ! 1) = Inr contents \<and> \<not> cannot_read E argv \<and>
      first_accepted L (take 32 contents) BIP32_VER_MAIN_PRIVATE n \<and>
      fst (derive L (master_key L (take 32 contents) BIP32_VER_MAIN_PRIVATE n)) = WALLY_OK \<and>
      fst (derive L (snd (derive L (master_key L (take 32 contents) BIP32_VER_MAIN_PRIVATE n))))
        \<noteq> WALLY_OK \<longrightarrow>
      (\<exists>s'. main L E argv = Some (Exited 1, s') \<and> stdout s' = [] \<and>
         stderr s' = ''Can't derive private bip32 key'' \<and>
         calls s' =
           Call_open (argv ! 1) # whitening L (take 32 contents) BIP32_VER_MAIN_PRIVATE n @
           [derive_call (master_key L (take 32 contents) BIP32_VER_MAIN_PRIVATE n),
            derive_call (snd (derive L (master_key L (take 32 contents) BIP32_VER_MAIN_PRIVATE n)))])"
  proof (intro allI impI)
    fix contents n
    assume a: "length argv = 2 \<and> fs E (argv ! 1) = Inr contents \<and> \<not> cannot_read E argv \<and>
      first_accepted L (take 32 contents) BIP32_VER_MAIN_PRIVATE n \<and>
      fst (derive L (master_key L (take 32 contents) BIP32_VER_MAIN_PRIVATE n)) = WALLY_OK \<and>
      fst (derive L (snd (derive L (master_key L (take 32 contents) BIP32_VER_MAIN_PRIVATE n))))
        \<noteq> WALLY_OK"
    obtain ok st err fd where
      r: "read_all \<lparr>pending = contents, script = reads E\<rparr> 0 [] 32 = (ok, st, err, fd)"
      by (cases "read_all \<lparr>pending = contents, script = reads E\<rparr> 0 [] 32") auto
    from a have m: "main L E argv = Some (finish L (argv ! 1) err (take 32 contents) n)"
      using run [of contents n ok st err fd] r by simp
    show "\<exists>s'. main L E argv = Some (Exited 1, s') \<and> stdout s' = [] \<and>
         stderr s' = ''Can't derive private bip32 key'' \<and>
         calls s' =
           Call_open (argv ! 1) # whitening L (take 32 contents) BIP32_VER_MAIN_PRIVATE n @
           [derive_call (master_key L (take 32 contents) BIP32_VER_MAIN_PRIVATE n),
            derive_call (snd (derive L (master_key L (take 32 contents) BIP32_VER_MAIN_PRIVATE n)))]"
      unfolding m using a by (simp add: finish_def Let_def whitened_simps)
  qed
  have c_last: "\<forall>h s' parent i f.
      main L E argv = Some (h, s') \<and>
      Call_bip32_key_from_parent parent i f \<in> set (calls s') \<and>
      fst (bip32_key_from_parent L parent i f) \<noteq> WALLY_OK \<longrightarrow>
      h = Exited 1 \<and> stdout s' = [] \<and>
      (stderr s' = ''Can't derive child bip32 key'' \<or>
       stderr s' = ''Can't derive private bip32 key'') \<and>
      last (calls s') = Call_bip32_key_from_parent parent i f \<and>
      i = 0 \<and> f = BIP32_FLAG_KEY_PRIVATE \<and>
      length (filter is_child_derivation (calls s')) \<le> 2"
    using failed_derivation_last [of L E argv] by blast
  from c_first c_second c_last show ?thesis by (intro conjI)
qed

theorem derivation_failure_witness:
  "(\<exists>s'. main (mock_lib 1 0) (mock_env (replicate 32 0) [])
           [''clightning-dumpkeys'', ''hsm_secret''] = Some (Exited 1, s') \<and>
        stdout s' = [] \<and> stderr s' = ''Can't derive child bip32 key'' \<and>
        length (filter is_child_derivation (calls s')) = 1) \<and>
   (\<exists>s'. main (mock_lib 1 1) (mock_env (replicate 32 0) [])
           [''clightning-dumpkeys'', ''hsm_secret''] = Some (Exited 1, s') \<and>
        stdout s' = [] \<and> stderr s' = ''Can't derive private bip32 key'' \<and>
        length (filter is_child_derivation (calls s')) = 2)"
proof -
  let ?E = "mock_env (replicate 32 0) []"
  let ?argv = "[''clightning-dumpkeys'', ''hsm_secret'']"
  have f: "fs ?E (?argv ! 1) = Inr (replicate 32 0)" "length ?argv = 2"
    "take 32 (replicate 32 (0 :: u8)) = replicate 32 0"
    by (simp_all add: mock_env_def)
  have p1: "length ?argv = 2 \<and> fs ?E (?argv ! 1) = Inr (replicate 32 0) \<and> \<not> cannot_read ?E ?argv \<and>
      first_accepted (mock_lib 1 0) (take 32 (replicate 32 0)) BIP32_VER_MAIN_PRIVATE 1 \<and>
      fst (derive (mock_lib 1 0)
         (master_key (mock_lib 1 0) (take 32 (replicate 32 0)) BIP32_VER_MAIN_PRIVATE 1)) \<noteq> WALLY_OK"
    using f(1,2) mock_not_cannot_read [of "''clightning-dumpkeys''"] mock_first_accepted [of 0]
      mock_derive(5)
    by (simp only: f(3) simp_thms)
  from derivation_failure [of ?argv ?E "mock_lib 1 0", THEN conjunct1, rule_format, OF p1]
  have 1: "\<exists>s'. main (mock_lib 1 0) ?E ?argv = Some (Exited 1, s') \<and> stdout s' = [] \<and>
      stderr s' = ''Can't derive child bip32 key'' \<and>
      length (filter is_child_derivation (calls s')) = 1"
    by (auto simp: whitening_no_derivation derive_call_def)
  have p2: "length ?argv = 2 \<and> fs ?E (?argv ! 1) = Inr (replicate 32 0) \<and> \<not> cannot_read ?E ?argv \<and>
      first_accepted (mock_lib 1 1) (take 32 (replicate 32 0)) BIP32_VER_MAIN_PRIVATE 1 \<and>
      fst (derive (mock_lib 1 1)
         (master_key (mock_lib 1 1) (take 32 (replicate 32 0)) BIP32_VER_MAIN_PRIVATE 1)) = WALLY_OK \<and>
      fst (derive (mock_lib 1 1) (snd (derive (mock_lib 1 1)
         (master_key (mock_lib 1 1) (take 32 (replicate 32 0)) BIP32_VER_MAIN_PRIVATE 1))))
         \<noteq> WALLY_OK"
    using f(1,2) mock_not_cannot_read [of "''clightning-dumpkeys''"] mock_first_accepted [of 1]
      mock_derive(3,4)
    by (simp only: f(3) simp_thms)
  from derivation_failure [of ?argv ?E "mock_lib 1 1", THEN conjunct2, THEN conjunct1, rule_format, OF p2]
  have 2: "\<exists>s'. main (mock_lib 1 1) ?E ?argv = Some (Exited 1, s') \<and> stdout s' = [] \<and>
      stderr s' = ''Can't derive private bip32 key'' \<and>
      length (filter is_child_derivation (calls s')) = 2"
    by (auto simp: whitening_no_derivation derive_call_def)
  from 1 2 show ?thesis by (intro conjI)
qed

end
